theory Spec2Isabelle
  imports Complex_Main "HOL-Library.Log_Nat" "HOL-Library.Multiset" "HOL-Library.Product_Lexorder"
begin

section \<open>numstat: a shallow embedding of \<^verbatim>\<open>src/numstat.c\<close>\<close>

text \<open>
  The program reads numbers from a stream, computes descriptive statistics and prints
  them.  Its functions are translated one by one, in the order of the source file.
  Output streams are strings that grow; a call of \<^verbatim>\<open>exit\<close> is an outcome of its
  own; behaviour the C standard leaves undefined is an outcome of its own as well.
\<close>

subsection \<open>The C library: characters, \<^verbatim>\<open>atoi\<close>\<close>

definition nl :: string where
  "nl = [CHR 0x0A]"

text \<open>\<^verbatim>\<open>isspace\<close> and \<^verbatim>\<open>isdigit\<close> in the C locale.\<close>

definition isspace :: "char \<Rightarrow> bool" where
  "isspace c = (c \<in> {CHR '' '', CHR 0x09, CHR 0x0A, CHR 0x0B, CHR 0x0C, CHR 0x0D})"

definition isdigit :: "char \<Rightarrow> bool" where
  "isdigit c = (c \<in> set ''0123456789'')"

definition digit_val :: "char \<Rightarrow> int" where
  "digit_val c = int (of_char c) - 48"

text \<open>The value of a run of decimal digits, most significant first.\<close>

fun digits_val :: "string \<Rightarrow> int \<Rightarrow> int" where
  "digits_val [] acc = acc"
| "digits_val (c # cs) acc = digits_val cs (10 * acc + digit_val c)"

text \<open>
  \<^verbatim>\<open>atoi\<close> is not code of the repository.  It is modelled as the GNU C library, with
  which the program runs, implements it: \<^verbatim>\<open>(int) strtol(s, NULL, 10)\<close>.  Leading white
  space is skipped, an optional sign is read, then the longest run of decimal digits;
  with no digit the value is 0.  \<^verbatim>\<open>strtol\<close> returns \<^verbatim>\<open>LONG_MAX\<close> or \<^verbatim>\<open>LONG_MIN\<close> for a
  value that a \<^verbatim>\<open>long\<close> of 64 bits cannot hold, and the conversion to an \<^verbatim>\<open>int\<close> of 32
  bits keeps the low 32 bits.  (The C standard leaves \<^verbatim>\<open>atoi\<close> undefined when the value
  is not an \<^verbatim>\<open>int\<close>; so a value outside the range of \<^verbatim>\<open>int\<close> is where another library
  may differ.)  \<open>integer_value\<close> is the integer that the digits denote.
\<close>

definition after_sign :: "string \<Rightarrow> string" where
  "after_sign s =
     (let s1 = dropWhile isspace s
      in if s1 \<noteq> [] \<and> (hd s1 = CHR ''-'' \<or> hd s1 = CHR ''+'') then tl s1 else s1)"

definition integer_value :: "string \<Rightarrow> int" where
  "integer_value s =
     (let s1 = dropWhile isspace s;
          neg = (s1 \<noteq> [] \<and> hd s1 = CHR ''-'');
          n = digits_val (takeWhile isdigit (after_sign s)) 0
      in if neg then - n else n)"

definition strtol :: "string \<Rightarrow> int" where
  "strtol s =
     (let v = integer_value s
      in if v < - (2 ^ 63) then - (2 ^ 63) else if 2 ^ 63 \<le> v then 2 ^ 63 - 1 else v)"

definition int_of_long :: "int \<Rightarrow> int" where
  "int_of_long v = (v + 2 ^ 31) mod 2 ^ 32 - 2 ^ 31"

definition atoi :: "string \<Rightarrow> int" where
  "atoi s = int_of_long (strtol s)"

text \<open>A string that holds no number: after white space and an optional sign comes no digit.\<close>

definition no_digits :: "string \<Rightarrow> bool" where
  "no_digits s = (takeWhile isdigit (after_sign s) = [])"

subsection \<open>Configuration and the command line\<close>

record Config =
  json_output :: int
  precision :: int
  input_file :: "string option"

text \<open>What the program has written so far.\<close>

record outputs =
  stdout :: string
  stderr :: string

definition no_output :: outputs where
  "no_output = \<lparr>stdout = [], stderr = []\<rparr>"

definition printf :: "string \<Rightarrow> outputs \<Rightarrow> outputs" where
  "printf s out = out\<lparr>stdout := stdout out @ s\<rparr>"

definition eprintf :: "string \<Rightarrow> outputs \<Rightarrow> outputs" where
  "eprintf s out = out\<lparr>stderr := stderr out @ s\<rparr>"

definition print_help :: "string \<Rightarrow> outputs \<Rightarrow> outputs" where
  \<open>print_help program_name out =
     printf (concat
       [''numstat - Calculate statistics for numerical data'', nl, nl,
        ''Usage: '', program_name, '' [OPTIONS] [FILE]'', nl, nl,
        ''Options:'', nl,
        ''  -j, --json         Output in JSON format'', nl,
        ''  -p, --precision N  Set decimal precision (default: 4)'', nl,
        ''  -h, --help         Show this help message'', nl, nl,
        ''Input:'', nl,
        ''  If FILE is provided, reads numbers from file'', nl,
        ''  If no FILE is given, reads from stdin'', nl, nl,
        ''Statistics calculated:'', nl,
        ''  - Count, Sum, Mean, Median'', nl,
        ''  - Minimum, Maximum, Range'', nl,
        ''  - Q1 (25th percentile), Q3 (75th percentile)'', nl,
        ''  - Standard Deviation (population)'', nl, nl,
        ''Examples:'', nl,
        ''  '', program_name, '' data.txt              # Read from file'', nl,
        ''  cat data.txt | '', program_name, ''        # Read from stdin'', nl,
        ''  echo "1 2 3" | '', program_name, ''       # Quick calculation'', nl,
        ''  '', program_name, '' -j data.txt           # JSON output'', nl,
        ''  '', program_name, '' -p 2 data.txt         # 2 decimal places'', nl]) out\<close>

definition precision_warning :: string where
  "precision_warning =
     ''Warning: Precision should be between 0 and 10. Using default (4).'' @ nl"

text \<open>
  How \<^verbatim>\<open>parse_args\<close> ends: it returns with the configuration it has written, or it
  calls \<^verbatim>\<open>exit\<close>.
\<close>

datatype parse_result = Returned Config | Exited int

text \<open>
  The loop of \<^verbatim>\<open>parse_args\<close> over \<^verbatim>\<open>argv[i]\<close>, \<^verbatim>\<open>i = 1 .. argc - 1\<close>: the list is
  what is left of \<^verbatim>\<open>argv\<close> from index \<^verbatim>\<open>i\<close> on, and \<^verbatim>\<open>-p\<close> takes the next element
  with it (\<^verbatim>\<open>argv[++i]\<close>).
\<close>

definition is_opt :: "string \<Rightarrow> string \<Rightarrow> string \<Rightarrow> bool" where
  "is_opt a short long = (a = short \<or> a = long)"

definition unknown_option :: "string \<Rightarrow> outputs \<Rightarrow> outputs" where
  "unknown_option a out =
     eprintf (''Use -h or --help for usage information'' @ nl)
       (eprintf (''Error: Unknown option '' @ [CHR 0x27] @ a @ [CHR 0x27] @ nl) out)"

function parse_args_from :: "string \<Rightarrow> string list \<Rightarrow> Config \<Rightarrow> outputs \<Rightarrow> parse_result \<times> outputs" where
  "parse_args_from prog [] config out = (Returned config, out)"
| "parse_args_from prog (a # rest) config out =
     (if is_opt a ''-h'' ''--help'' then (Exited 0, print_help prog out)
      else if is_opt a ''-j'' ''--json'' then
        parse_args_from prog rest (config\<lparr>json_output := 1\<rparr>) out
      else if is_opt a ''-p'' ''--precision'' then
        (if rest \<noteq> [] then
           (let p = atoi (hd rest) in
            if p < 0 \<or> p > 10 then
              parse_args_from prog (tl rest) (config\<lparr>precision := 4\<rparr>)
                (eprintf precision_warning out)
            else parse_args_from prog (tl rest) (config\<lparr>precision := p\<rparr>) out)
         else (Exited 1, eprintf (''Error: -p requires a number argument'' @ nl) out))
      else if a \<noteq> [] \<and> hd a = CHR ''-'' then (Exited 1, unknown_option a out)
      else if input_file config \<noteq> None then
        (Exited 1, eprintf (''Error: Multiple input files specified'' @ nl) out)
      else parse_args_from prog rest (config\<lparr>input_file := Some a\<rparr>) out)"
  by pat_completeness auto
termination
  by (relation "measure (\<lambda>(prog, args, config, out). length args)") auto

definition parse_args :: "string list \<Rightarrow> Config \<Rightarrow> outputs \<Rightarrow> parse_result \<times> outputs" where
  "parse_args argv config out =
     (case argv of [] \<Rightarrow> (Returned config, out)
      | prog # rest \<Rightarrow> parse_args_from prog rest config out)"

text \<open>Output appended to output.\<close>

definition append_out :: "outputs \<Rightarrow> outputs \<Rightarrow> outputs" where
  "append_out a b = \<lparr>stdout = stdout a @ stdout b, stderr = stderr a @ stderr b\<rparr>"

text \<open>\<^verbatim>\<open>Config config = {0, 4, NULL}\<close> in \<^verbatim>\<open>main\<close>.\<close>

definition default_config :: Config where
  "default_config = \<lparr>json_output = 0, precision = 4, input_file = None\<rparr>"

subsection \<open>IEEE 754 binary64: the type \<^verbatim>\<open>double\<close>\<close>

text \<open>
  A \<^verbatim>\<open>double\<close> is a finite number, a negative zero, an infinity or a NaN.  The sign and
  the payload of a NaN are not tracked: no comparison and no result of an operation
  other than a NaN depends on them, and what \<^verbatim>\<open>printf\<close> needs of the sign is an argument of
  the printing functions below.  \<open>Finite 0\<close> is the positive zero.  Every operation
  computes the exact result and rounds it to the nearest representable number, ties to
  the even significand, as an implementation with \<^verbatim>\<open>FLT_EVAL_METHOD\<close> 0 and no
  contraction of products into fused operations does.
\<close>

datatype double = Finite real | NegZero | PosInf | NegInf | NaN

text \<open>\<open>ilog2 x\<close> is the integer \<open>k\<close> with \<open>2^k \<le> x < 2^(k+1)\<close>, for \<open>x > 0\<close>.\<close>

definition ilog2 :: "real \<Rightarrow> int" where
  "ilog2 x = (if 1 \<le> x then int (floorlog 2 (nat \<lfloor>x\<rfloor>)) - 1
              else - int (floorlog 2 (nat \<lceil>1 / x\<rceil> - 1)))"

definition round_half_even :: "real \<Rightarrow> int" where
  "round_half_even x =
     (let f = \<lfloor>x\<rfloor>; d = x - of_int f in
      if d < 1 / 2 then f else if 1 / 2 < d then f + 1
      else if even f then f else f + 1)"

text \<open>
  The exponent of the unit in the last place of the 53-bit significand: normal numbers
  start at \<open>2^-1022\<close>, below them the subnormal numbers share the exponent \<open>-1074\<close>.
\<close>

definition ulp_exp :: "real \<Rightarrow> int" where
  "ulp_exp x = max (ilog2 \<bar>x\<bar>) (- 1022) - 52"

text \<open>Every finite double is smaller in magnitude than \<open>2^1024\<close>.\<close>

definition overflow_threshold :: real where
  "overflow_threshold = 2 ^ 1024"

text \<open>Rounding of an exact result; overflow gives an infinity, underflow a signed zero.\<close>

definition rnd :: "real \<Rightarrow> double" where
  "rnd x =
     (if x = 0 then Finite 0
      else let e = ulp_exp x;
               y = of_int (round_half_even (x / 2 powi e)) * 2 powi e
           in if overflow_threshold \<le> \<bar>y\<bar> then (if 0 < x then PosInf else NegInf)
              else if y = 0 then (if x < 0 then NegZero else Finite 0)
              else Finite y)"

text \<open>The values an object of type \<^verbatim>\<open>double\<close> can hold.\<close>

definition is_double :: "double \<Rightarrow> bool" where
  "is_double x = (case x of Finite r \<Rightarrow> rnd r = Finite r | _ \<Rightarrow> True)"

definition is_zero :: "double \<Rightarrow> bool" where
  "is_zero x = (x = Finite 0 \<or> x = NegZero)"

definition is_inf :: "double \<Rightarrow> bool" where
  "is_inf x = (x = PosInf \<or> x = NegInf)"

fun sign_bit :: "double \<Rightarrow> bool" where
  "sign_bit (Finite r) = (r < 0)"
| "sign_bit NegZero = True"
| "sign_bit PosInf = False"
| "sign_bit NegInf = True"
| "sign_bit NaN = False"

fun value_of :: "double \<Rightarrow> real" where
  "value_of (Finite r) = r"
| "value_of _ = 0"

definition signed_zero :: "bool \<Rightarrow> double" where
  "signed_zero neg = (if neg then NegZero else Finite 0)"

definition signed_inf :: "bool \<Rightarrow> double" where
  "signed_inf neg = (if neg then NegInf else PosInf)"

fun dneg :: "double \<Rightarrow> double" where
  "dneg (Finite r) = (if r = 0 then NegZero else Finite (- r))"
| "dneg NegZero = Finite 0"
| "dneg PosInf = NegInf"
| "dneg NegInf = PosInf"
| "dneg NaN = NaN"

fun dadd :: "double \<Rightarrow> double \<Rightarrow> double" where
  "dadd NaN y = NaN"
| "dadd x NaN = NaN"
| "dadd PosInf NegInf = NaN"
| "dadd NegInf PosInf = NaN"
| "dadd PosInf y = PosInf"
| "dadd x PosInf = PosInf"
| "dadd NegInf y = NegInf"
| "dadd x NegInf = NegInf"
| "dadd NegZero y = y"
| "dadd x NegZero = x"
| "dadd (Finite a) (Finite b) = rnd (a + b)"

definition dsub :: "double \<Rightarrow> double \<Rightarrow> double" where
  "dsub x y = dadd x (dneg y)"

definition dmul :: "double \<Rightarrow> double \<Rightarrow> double" where
  "dmul x y =
     (if x = NaN \<or> y = NaN then NaN
      else if is_inf x \<or> is_inf y then
        (if is_zero x \<or> is_zero y then NaN else signed_inf (sign_bit x \<noteq> sign_bit y))
      else if is_zero x \<or> is_zero y then signed_zero (sign_bit x \<noteq> sign_bit y)
      else rnd (value_of x * value_of y))"

definition ddiv :: "double \<Rightarrow> double \<Rightarrow> double" where
  "ddiv x y =
     (if x = NaN \<or> y = NaN then NaN
      else if is_inf x then (if is_inf y then NaN else signed_inf (sign_bit x \<noteq> sign_bit y))
      else if is_inf y then signed_zero (sign_bit x \<noteq> sign_bit y)
      else if is_zero y then (if is_zero x then NaN else signed_inf (sign_bit x \<noteq> sign_bit y))
      else if is_zero x then signed_zero (sign_bit x \<noteq> sign_bit y)
      else rnd (value_of x / value_of y))"

text \<open>The integer square root, by halving the number of bits.\<close>

function isqrt :: "nat \<Rightarrow> nat" where
  "isqrt n = (if n < 2 then n
              else let r = 2 * isqrt (n div 4) in if (r + 1) * (r + 1) \<le> n then r + 1 else r)"
  by pat_completeness auto
termination
  by (relation "measure id") auto

text \<open>
  The correctly rounded square root of \<open>r > 0\<close>: with \<open>t = r / 4^e\<close> between \<open>2^104\<close> and
  \<open>2^106\<close>, the significand is \<open>sqrt t\<close> rounded to an integer, which comparing \<open>t\<close> with
  \<open>(n + 1/2)^2\<close> decides.  A square root neither overflows nor underflows.
\<close>

definition rnd_sqrt :: "real \<Rightarrow> double" where
  "rnd_sqrt r =
     (let e = ilog2 r div 2 - 52;
          t = r / 2 powi (2 * e);
          n = int (isqrt (nat \<lfloor>t\<rfloor>));
          h = (of_int n + 1 / 2) * (of_int n + 1 / 2);
          m = (if t < h then n else if h < t then n + 1 else if even n then n else n + 1)
      in Finite (of_int m * 2 powi e))"

definition dsqrt :: "double \<Rightarrow> double" where
  "dsqrt x =
     (case x of
        NaN \<Rightarrow> NaN
      | NegInf \<Rightarrow> NaN
      | PosInf \<Rightarrow> PosInf
      | NegZero \<Rightarrow> NegZero
      | Finite r \<Rightarrow> if r < 0 then NaN else if r = 0 then Finite 0 else rnd_sqrt r)"

text \<open>
  The order of the comparison operators: a key in the lexicographic order of pairs puts
  the infinities below and above every number and both zeros together; a NaN compares
  false with everything.
\<close>

fun key :: "double \<Rightarrow> int \<times> real" where
  "key (Finite r) = (0, r)"
| "key NegZero = (0, 0)"
| "key PosInf = (1, 0)"
| "key NegInf = (- 1, 0)"
| "key NaN = (2, 0)"

definition dlt :: "double \<Rightarrow> double \<Rightarrow> bool" where
  "dlt x y = (x \<noteq> NaN \<and> y \<noteq> NaN \<and> key x < key y)"

definition dgt :: "double \<Rightarrow> double \<Rightarrow> bool" where
  "dgt x y = dlt y x"

definition dle :: "double \<Rightarrow> double \<Rightarrow> bool" where
  "dle x y = (x \<noteq> NaN \<and> y \<noteq> NaN \<and> key x \<le> key y)"

text \<open>Conversion of a \<^verbatim>\<open>size_t\<close> to \<^verbatim>\<open>double\<close> rounds as every operation does.\<close>

definition double_of_nat :: "nat \<Rightarrow> double" where
  "double_of_nat n = rnd (real n)"

text \<open>
  The cast \<^verbatim>\<open>(size_t) x\<close> discards the fraction; it is undefined when the integral part
  is no value of a 64-bit \<^verbatim>\<open>size_t\<close>, and for infinities and NaN.
\<close>

definition size_t_of_double :: "double \<Rightarrow> nat option" where
  "size_t_of_double x =
     (case x of
        Finite r \<Rightarrow>
          (let t = (if 0 \<le> r then \<lfloor>r\<rfloor> else \<lceil>r\<rceil>)
           in if 0 \<le> t \<and> t < 2 ^ 64 then Some (nat t) else None)
      | NegZero \<Rightarrow> Some 0
      | _ \<Rightarrow> None)"

subsection \<open>Reading the numbers\<close>

text \<open>
  The input stream, as \<^verbatim>\<open>fscanf(file, "%lf", &num)\<close> sees it: the list of the outcomes
  of its successive calls.  \<open>Some v\<close> is a call that returns 1 and stores \<open>v\<close>; \<open>None\<close> is
  a call that returns 0, at a token that is no number; at the end of the list the stream
  has ended and the call returns \<^verbatim>\<open>EOF\<close>.  How characters form tokens belongs to the C
  library and is not part of this model.
\<close>

type_synonym stream = "double option list"

text \<open>
  \<^verbatim>\<open>malloc\<close> and \<^verbatim>\<open>realloc\<close>: a request succeeds when it asks for no more bytes than the
  process can obtain.
\<close>

definition alloc_ok :: "nat \<Rightarrow> nat \<Rightarrow> bool" where
  "alloc_ok mem_limit bytes = (bytes \<le> mem_limit)"

text \<open>
  What \<^verbatim>\<open>read_numbers\<close> returns: the array with its \<^verbatim>\<open>*count\<close> elements, or \<^verbatim>\<open>NULL\<close>.
  A request for \<^verbatim>\<open>capacity * sizeof(double)\<close> bytes that wraps around in \<^verbatim>\<open>size_t\<close> asks
  for 0 bytes, and the store to \<^verbatim>\<open>values[count]\<close> that follows is out of bounds.
\<close>

datatype read_result = Values "double list" | Null | Out_of_bounds

fun read_loop :: "nat \<Rightarrow> stream \<Rightarrow> double list \<Rightarrow> nat \<Rightarrow> read_result" where
  "read_loop mem_limit [] vals capacity = Values vals"
| "read_loop mem_limit (None # file) vals capacity = Values vals"
| "read_loop mem_limit (Some num # file) vals capacity =
     (if length vals \<ge> capacity then
        (let capacity' = (capacity * 2) mod 2 ^ 64;
             bytes = (capacity' * 8) mod 2 ^ 64
         in if bytes = 0 then Out_of_bounds
            else if \<not> alloc_ok mem_limit bytes then Null
            else read_loop mem_limit file (vals @ [num]) capacity')
      else read_loop mem_limit file (vals @ [num]) capacity)"

definition read_numbers :: "nat \<Rightarrow> stream \<Rightarrow> read_result" where
  "read_numbers mem_limit file =
     (if \<not> alloc_ok mem_limit (16 * 8) then Null
      else read_loop mem_limit file [] 16)"

subsection \<open>Sorting\<close>

definition compare_double :: "double \<Rightarrow> double \<Rightarrow> int" where
  "compare_double a b =
     (let diff = dsub a b
      in (if dgt diff (Finite 0) then 1 else 0) - (if dlt diff (Finite 0) then 1 else 0))"

text \<open>
  \<^verbatim>\<open>qsort\<close> is not code of the repository.  It is modelled as an insertion sort that
  asks the comparison function: an element goes before the first one it does not
  compare greater than.  On an array that the comparison function orders totally, as
  \<^verbatim>\<open>compare_double\<close> does when no element is a NaN, every \<^verbatim>\<open>qsort\<close> returns the same
  array up to the order of elements that compare equal (here: zeros of either sign).
  \<^verbatim>\<open>compare_double\<close> finds a NaN equal to every number, which is no order; for an array
  that holds a NaN the C standard does not say what \<^verbatim>\<open>qsort\<close> leaves in it, and the array
  of this model need not be the one of the library.  What is proved below of the sorted
  array, and of the median and the quartiles, is proved for arrays with no NaN.
\<close>

fun insert_by :: "('a \<Rightarrow> 'a \<Rightarrow> int) \<Rightarrow> 'a \<Rightarrow> 'a list \<Rightarrow> 'a list" where
  "insert_by cmp x [] = [x]"
| "insert_by cmp x (y # ys) = (if cmp x y \<le> 0 then x # y # ys else y # insert_by cmp x ys)"

definition qsort :: "('a \<Rightarrow> 'a \<Rightarrow> int) \<Rightarrow> 'a list \<Rightarrow> 'a list" where
  "qsort cmp xs = foldr (insert_by cmp) xs []"

subsection \<open>The statistics\<close>

record Stats =
  count_v :: nat
  sum_v :: double
  mean :: double
  min_v :: double
  max_v :: double
  range_v :: double
  median :: double
  q1 :: double
  q3 :: double
  variance :: double
  stddev :: double

text \<open>
  \<^verbatim>\<open>get_percentile\<close>: the list is the array \<^verbatim>\<open>sorted_values\<close> with its \<^verbatim>\<open>count\<close> elements.
  \<open>None\<close> is the undefined cast of \<^verbatim>\<open>index\<close> to \<^verbatim>\<open>size_t\<close>.  \<^verbatim>\<open>lower + 1\<close> does not wrap:
  no \<^verbatim>\<open>double\<close> lies between \<open>2^64 - 1\<close> and \<open>2^64\<close>.
\<close>

definition get_percentile :: "double list \<Rightarrow> double \<Rightarrow> double option" where
  "get_percentile sorted_values percentile =
     (let count = length sorted_values in
      if count = 0 then Some (Finite 0)
      else if count = 1 then Some (sorted_values ! 0)
      else
        let index = dmul percentile (double_of_nat (count - 1)) in
        case size_t_of_double index of
          None \<Rightarrow> None
        | Some lower \<Rightarrow>
            let upper = lower + 1 in
            if upper \<ge> count then Some (sorted_values ! (count - 1))
            else
              let weight = dsub index (double_of_nat lower) in
              Some (dadd (dmul (sorted_values ! lower) (dsub (Finite 1) weight))
                         (dmul (sorted_values ! upper) weight)))"

text \<open>The first loop of \<^verbatim>\<open>calculate_stats\<close>, on \<^verbatim>\<open>(stats->sum, stats->min, stats->max)\<close>.\<close>

fun sum_min_max :: "double list \<Rightarrow> double \<times> double \<times> double \<Rightarrow> double \<times> double \<times> double" where
  "sum_min_max [] (s, mn, mx) = (s, mn, mx)"
| "sum_min_max (v # vs) (s, mn, mx) =
     sum_min_max vs (dadd s v, if dlt v mn then v else mn, if dgt v mx then v else mx)"

text \<open>The second loop, on \<^verbatim>\<open>stats->variance\<close>.\<close>

fun sum_sq_diff :: "double list \<Rightarrow> double \<Rightarrow> double \<Rightarrow> double" where
  "sum_sq_diff [] m acc = acc"
| "sum_sq_diff (v # vs) m acc =
     (let diff = dsub v m in sum_sq_diff vs m (dadd acc (dmul diff diff)))"

text \<open>
  \<^verbatim>\<open>calculate_stats\<close>: the list is the array \<^verbatim>\<open>values\<close> with its \<^verbatim>\<open>count\<close> elements.  With
  no element the read of \<^verbatim>\<open>values[0]\<close> is undefined: \<open>None\<close>, as is an undefined cast in
  \<^verbatim>\<open>get_percentile\<close>.
\<close>

definition calculate_stats :: "double list \<Rightarrow> Stats option" where
  "calculate_stats vals =
     (case vals of
        [] \<Rightarrow> None
      | v0 # _ \<Rightarrow>
          let count = length vals;
              (s, mn, mx) = sum_min_max vals (Finite 0, v0, v0);
              m = ddiv s (double_of_nat count);
              rg = dsub mx mn;
              var = ddiv (sum_sq_diff vals m (Finite 0)) (double_of_nat count);
              sd = dsqrt var;
              sorted_values = qsort compare_double vals
          in case (get_percentile sorted_values (Finite (1 / 2)),
                   get_percentile sorted_values (Finite (1 / 4)),
                   get_percentile sorted_values (Finite (3 / 4))) of
               (Some md, Some p25, Some p75) \<Rightarrow>
                 Some \<lparr>count_v = count, sum_v = s, mean = m, min_v = mn, max_v = mx,
                       range_v = rg, median = md, q1 = p25, q3 = p75,
                       variance = var, stddev = sd\<rparr>
             | _ \<Rightarrow> None)"

subsection \<open>Printing\<close>

definition digit_char :: "nat \<Rightarrow> char" where
  "digit_char d = ''0123456789'' ! d"

text \<open>The conversion \<^verbatim>\<open>%zu\<close>.\<close>

function show_nat :: "nat \<Rightarrow> string" where
  "show_nat n = (if n < 10 then [digit_char n]
                 else show_nat (n div 10) @ [digit_char (n mod 10)])"
  by pat_completeness auto
termination
  by (relation "measure id") auto

text \<open>The last \<open>p\<close> decimal digits of \<open>n\<close>, with leading zeros.\<close>

fun frac_digits :: "nat \<Rightarrow> nat \<Rightarrow> string" where
  "frac_digits 0 n = []"
| "frac_digits (Suc p) n = frac_digits p (n div 10) @ [digit_char (n mod 10)]"

text \<open>
  The conversion \<^verbatim>\<open>%.*f\<close> of the C library: the exact value is rounded to \<open>p\<close> decimal
  places (to nearest, ties to even); with precision 0 no decimal point is written; a
  negative precision argument counts as omitted, which is precision 6; infinities and
  NaN are written as words, with no digits.  A NaN is written as \<^verbatim>\<open>nan\<close> or, when its sign
  bit is set, as \<^verbatim>\<open>-nan\<close>.  The type \<open>double\<close> above has one NaN only (IEEE 754 does not
  say which sign the NaN of an invalid operation has; on x86-64 the NaN that
  \<^verbatim>\<open>inf - inf\<close> gives has the sign bit set), so the sign bit that \<^verbatim>\<open>printf\<close> finds is the
  argument \<open>neg\<close>, which matters for a NaN only.
\<close>

definition fixed :: "nat \<Rightarrow> real \<Rightarrow> string" where
  "fixed p a =
     (let n = nat (round_half_even (a * 10 ^ p))
      in show_nat (n div 10 ^ p) @
         (if p = 0 then [] else ''.'' @ frac_digits p (n mod 10 ^ p)))"

definition format_f :: "bool \<Rightarrow> int \<Rightarrow> double \<Rightarrow> string" where
  "format_f neg prec x =
     (let p = (if prec < 0 then 6 else nat prec) in
      case x of
        Finite r \<Rightarrow> (if r < 0 then ''-'' else []) @ fixed p \<bar>r\<bar>
      | NegZero \<Rightarrow> ''-'' @ fixed p 0
      | PosInf \<Rightarrow> ''inf''
      | NegInf \<Rightarrow> ''-inf''
      | NaN \<Rightarrow> (if neg then ''-nan'' else ''nan''))"

text \<open>
  The sign bits of the NaNs in a \<^verbatim>\<open>Stats\<close> structure, which the record \<open>Stats\<close> does not
  hold: \<open>signs k\<close> says whether the \<open>k\<close>-th number printed (0 is the sum, 8 the
  standard deviation), if it is a NaN, has its sign bit set.
\<close>

type_synonym nan_signs = "nat \<Rightarrow> bool"

text \<open>The lines of \<^verbatim>\<open>print_stats_text\<close>, one per call of \<^verbatim>\<open>printf\<close>.\<close>

definition text_lines :: "nan_signs \<Rightarrow> Stats \<Rightarrow> int \<Rightarrow> string list" where
  "text_lines signs stats prec =
     [''Statistics for '' @ show_nat (count_v stats) @ '' numbers:'',
      ''  Sum:     '' @ format_f (signs 0) prec (sum_v stats),
      ''  Mean:    '' @ format_f (signs 1) prec (mean stats),
      ''  Median:  '' @ format_f (signs 2) prec (median stats),
      ''  Minimum: '' @ format_f (signs 3) prec (min_v stats),
      ''  Maximum: '' @ format_f (signs 4) prec (max_v stats),
      ''  Range:   '' @ format_f (signs 5) prec (range_v stats),
      ''  Q1:      '' @ format_f (signs 6) prec (q1 stats),
      ''  Q3:      '' @ format_f (signs 7) prec (q3 stats),
      ''  StdDev:  '' @ format_f (signs 8) prec (stddev stats)]"

definition print_stats_text :: "nan_signs \<Rightarrow> Stats \<Rightarrow> int \<Rightarrow> outputs \<Rightarrow> outputs" where
  "print_stats_text signs stats prec out =
     printf (concat (map (\<lambda>l. l @ nl) (text_lines signs stats prec))) out"

text \<open>The lines of \<^verbatim>\<open>print_stats_json\<close>.\<close>

definition json_lines :: "nan_signs \<Rightarrow> Stats \<Rightarrow> int \<Rightarrow> string list" where
  \<open>json_lines signs stats prec =
     [''{'',
      ''  "count": '' @ show_nat (count_v stats) @ '','',
      ''  "sum": '' @ format_f (signs 0) prec (sum_v stats) @ '','',
      ''  "mean": '' @ format_f (signs 1) prec (mean stats) @ '','',
      ''  "median": '' @ format_f (signs 2) prec (median stats) @ '','',
      ''  "min": '' @ format_f (signs 3) prec (min_v stats) @ '','',
      ''  "max": '' @ format_f (signs 4) prec (max_v stats) @ '','',
      ''  "range": '' @ format_f (signs 5) prec (range_v stats) @ '','',
      ''  "q1": '' @ format_f (signs 6) prec (q1 stats) @ '','',
      ''  "q3": '' @ format_f (signs 7) prec (q3 stats) @ '','',
      ''  "stddev": '' @ format_f (signs 8) prec (stddev stats),
      ''}'']\<close>

definition print_stats_json :: "nan_signs \<Rightarrow> Stats \<Rightarrow> int \<Rightarrow> outputs \<Rightarrow> outputs" where
  "print_stats_json signs stats prec out =
     printf (concat (map (\<lambda>l. l @ nl) (json_lines signs stats prec))) out"

subsection \<open>The program\<close>

text \<open>
  What the program finds around it: the files that \<^verbatim>\<open>fopen\<close> can open (with their
  contents), the standard input, the memory it can obtain, and the sign bits that the
  processor gives to the NaNs among the statistics.
\<close>

record env =
  files :: "string \<Rightarrow> stream option"
  stdin_stream :: stream
  mem_limit :: nat
  nan_sign :: nan_signs

text \<open>How the process ends: with an exit status, or in undefined behaviour.\<close>

datatype ending = Exit int | Undefined_behaviour

text \<open>
  \<^verbatim>\<open>main\<close>, with the function that computes the statistics as a parameter
  (\<^verbatim>\<open>main\<close> itself calls \<^verbatim>\<open>calculate_stats\<close>); \<open>process\<close> is \<^verbatim>\<open>main\<close> from the call
  of \<^verbatim>\<open>read_numbers\<close> on, once the input is open.
\<close>

definition process ::
    "(double list \<Rightarrow> Stats option) \<Rightarrow> Config \<Rightarrow> env \<Rightarrow> stream \<Rightarrow> outputs \<Rightarrow> ending \<times> outputs" where
  "process calc config e file out =
     (case read_numbers (mem_limit e) file of
        Null \<Rightarrow> (Exit 1, eprintf (''Error: Memory allocation failed'' @ nl) out)
      | Out_of_bounds \<Rightarrow> (Undefined_behaviour, out)
      | Values vals \<Rightarrow>
          if length vals = 0 then
            (Exit 1, eprintf (''Error: No valid numbers found in input'' @ nl) out)
          else
            (case calc vals of
               None \<Rightarrow> (Undefined_behaviour, out)
             | Some stats \<Rightarrow>
                 (Exit 0,
                  if json_output config \<noteq> 0
                  then print_stats_json (nan_sign e) stats (precision config) out
                  else print_stats_text (nan_sign e) stats (precision config) out)))"

definition main_with ::
    "(double list \<Rightarrow> Stats option) \<Rightarrow> string list \<Rightarrow> env \<Rightarrow> ending \<times> outputs" where
  "main_with calc argv e =
     (case parse_args argv default_config no_output of
        (Exited n, out) \<Rightarrow> (Exit n, out)
      | (Returned config, out) \<Rightarrow>
          (case input_file config of
             Some name \<Rightarrow>
               (case files e name of
                  None \<Rightarrow>
                    (Exit 1,
                     eprintf (''Error: Cannot open file '' @ [CHR 0x27] @ name @ [CHR 0x27] @ nl)
                       out)
                | Some file \<Rightarrow> process calc config e file out)
           | None \<Rightarrow> process calc config e (stdin_stream e) out))"

definition main :: "string list \<Rightarrow> env \<Rightarrow> ending \<times> outputs" where
  "main argv e = main_with calculate_stats argv e"

subsection \<open>Notions of the specification and of the proofs\<close>

text \<open>The significand and the value that \<open>rnd\<close> rounds to, before overflow is looked at.\<close>

definition sig :: "real \<Rightarrow> int" where
  "sig x = round_half_even (x / 2 powi ulp_exp x)"

definition rval :: "real \<Rightarrow> real" where
  "rval x = of_int (sig x) * 2 powi ulp_exp x"

text \<open>
  The percentile as the specification words it: \<open>index = p * (count - 1)\<close>,
  \<open>lower = floor(index)\<close>, \<open>upper = lower + 1\<close>, \<open>weight = index - lower\<close>; the last
  element when \<open>upper \<ge> count\<close>, the linear interpolation otherwise.
\<close>

definition percentile_spec :: "double list \<Rightarrow> double \<Rightarrow> double" where
  "percentile_spec sorted_values p =
     (let count = length sorted_values;
          index = dmul p (double_of_nat (count - 1));
          lower = nat \<lfloor>value_of index\<rfloor>;
          upper = lower + 1;
          weight = dsub index (double_of_nat lower)
      in if upper \<ge> count then sorted_values ! (count - 1)
         else dadd (dmul (sorted_values ! lower) (dsub (Finite 1) weight))
                   (dmul (sorted_values ! upper) weight))"

text \<open>The sum of the squared deviations from \<open>m\<close>, added up in the order of the sequence.\<close>

definition sum_sq_dev :: "double list \<Rightarrow> double \<Rightarrow> double" where
  "sum_sq_dev vals m = foldl dadd (Finite 0) (map (\<lambda>v. dmul (dsub v m) (dsub v m)) vals)"


text \<open>The values of the calls of \<^verbatim>\<open>fscanf\<close> that succeed before the first one that fails.\<close>

definition scanned :: "stream \<Rightarrow> double list" where
  "scanned file = map the (takeWhile (\<lambda>t. t \<noteq> None) file)"

text \<open>
  The fields that both output modes print after the count, in the order of the
  specification, with the labels of the text mode and the keys of the JSON mode.
\<close>

definition numeric_fields :: "Stats \<Rightarrow> double list" where
  "numeric_fields stats =
     [sum_v stats, mean stats, median stats, min_v stats, max_v stats, range_v stats,
      q1 stats, q3 stats, stddev stats]"

definition text_labels :: "string list" where
  "text_labels =
     [''  Sum:     '', ''  Mean:    '', ''  Median:  '', ''  Minimum: '', ''  Maximum: '',
      ''  Range:   '', ''  Q1:      '', ''  Q3:      '', ''  StdDev:  '']"

definition json_keys :: "string list" where
  "json_keys = [''sum'', ''mean'', ''median'', ''min'', ''max'', ''range'', ''q1'', ''q3'', ''stddev'']"

text \<open>The nine fields as \<^verbatim>\<open>%.*f\<close> writes them, the \<open>k\<close>-th with the sign bit \<open>signs k\<close>.\<close>

definition formatted :: "nan_signs \<Rightarrow> int \<Rightarrow> Stats \<Rightarrow> string list" where
  "formatted signs prec stats =
     map (\<lambda>(k, v). format_f (signs k) prec v) (zip [0..<9] (numeric_fields stats))"

definition json_member :: "string \<Rightarrow> string \<Rightarrow> string" where
  \<open>json_member k v = ''  "'' @ k @ ''": '' @ v\<close>

definition digits :: "char set" where
  "digits = set ''0123456789''"

text \<open>The multiples of the smallest positive double.\<close>

definition on_grid :: "real \<Rightarrow> bool" where
  "on_grid x = (\<exists>k::int. x = of_int k * 2 powi (- 1074))"

text \<open>An array of doubles that holds no NaN.\<close>

definition clean :: "double list \<Rightarrow> bool" where
  "clean xs = (\<forall>x\<in>set xs. is_double x \<and> x \<noteq> NaN)"

text \<open>
  The same double, or both a zero.  For two doubles that are not NaN this is what \<^verbatim>\<open>==\<close>
  says; a NaN is the same as a NaN only, whereas \<^verbatim>\<open>==\<close> is false of it.
\<close>

definition same_value :: "double \<Rightarrow> double \<Rightarrow> bool" where
  "same_value x y = (x = y \<or> is_zero x \<and> is_zero y)"

text \<open>The interpolation of \<^verbatim>\<open>get_percentile\<close>, and \<^verbatim>\<open>get_percentile\<close> from the index on.\<close>

definition interpolate :: "double list \<Rightarrow> nat \<Rightarrow> double \<Rightarrow> double" where
  "interpolate s lower weight =
     dadd (dmul (s ! lower) (dsub (Finite 1) weight)) (dmul (s ! (lower + 1)) weight)"

definition pick :: "double list \<Rightarrow> double \<Rightarrow> double option" where
  "pick s index =
     (case size_t_of_double index of
        None \<Rightarrow> None
      | Some lower \<Rightarrow>
          if lower + 1 \<ge> length s then Some (s ! (length s - 1))
          else Some (interpolate s lower (dsub index (double_of_nat lower))))"

text \<open>
  The finite doubles (both zeros among them), and the doubles that are not negative
  (\<open>+inf\<close> among them: a sum of squares may overflow).
\<close>

definition is_finite :: "double \<Rightarrow> bool" where
  "is_finite x = (case x of Finite r \<Rightarrow> True | NegZero \<Rightarrow> True | _ \<Rightarrow> False)"

definition nonneg :: "double \<Rightarrow> bool" where
  "nonneg x = (case x of Finite r \<Rightarrow> 0 \<le> r | PosInf \<Rightarrow> True | _ \<Rightarrow> False)"

text \<open>
  The integers of magnitude at most \<open>2^50\<close>: between two of them the interpolation of
  \<^verbatim>\<open>get_percentile\<close> at a quarter, a half or three quarters is exact.  \<open>lerp\<close> is that
  interpolation over the reals, at the fractional rank \<open>t\<close>.
\<close>

definition small_int :: "double \<Rightarrow> bool" where
  "small_int x = (case x of Finite r \<Rightarrow> r = of_int \<lfloor>r\<rfloor> \<and> \<bar>r\<bar> \<le> 2 ^ 50 | _ \<Rightarrow> False)"

definition lerp :: "real list \<Rightarrow> real \<Rightarrow> real" where
  "lerp rs t = rs ! nat \<lfloor>t\<rfloor> * (1 - (t - of_int \<lfloor>t\<rfloor>)) + rs ! (nat \<lfloor>t\<rfloor> + 1) * (t - of_int \<lfloor>t\<rfloor>)"

section \<open>Properties\<close>

declare isqrt.simps [simp del]
declare show_nat.simps [simp del]
declare parse_args_from.simps(2) [simp del]

subsection \<open>The command line\<close>

lemma append_out_no_output [simp]: "append_out out no_output = out" "append_out no_output out = out"
  by (simp_all add: append_out_def no_output_def)

lemma printf_append: "printf s (append_out a b) = append_out a (printf s b)"
  by (simp add: printf_def append_out_def)

lemma eprintf_append: "eprintf s (append_out a b) = append_out a (eprintf s b)"
  by (simp add: eprintf_def append_out_def)

lemma print_help_append: "print_help p (append_out a b) = append_out a (print_help p b)"
  unfolding print_help_def by (rule printf_append)

lemma unknown_option_append: "unknown_option x (append_out a b) = append_out a (unknown_option x b)"
  by (simp add: unknown_option_def eprintf_append)

lemma parse_args_from_append:
  "parse_args_from prog args config (append_out o1 o2) =
     (case parse_args_from prog args config o2 of (r, d) \<Rightarrow> (r, append_out o1 d))"
proof (induction prog args config o2 rule: parse_args_from.induct)
  case (1 prog config out)
  show ?case by simp
next
  case (2 prog a rest config out)
  then show ?case
    by (auto simp: parse_args_from.simps(2) Let_def print_help_append eprintf_append
        unknown_option_append)
qed


lemma print_stats_text_append:
  "print_stats_text g s p (append_out a b) = append_out a (print_stats_text g s p b)"
  unfolding print_stats_text_def by (rule printf_append)

lemma print_stats_json_append:
  "print_stats_json g s p (append_out a b) = append_out a (print_stats_json g s p b)"
  unfolding print_stats_json_def by (rule printf_append)

lemma process_append:
  "process calc config e file (append_out o1 o2) =
     (case process calc config e file o2 of (r, d) \<Rightarrow> (r, append_out o1 d))"
  by (simp add: process_def eprintf_append print_stats_text_append print_stats_json_append
      split: read_result.splits option.splits)

lemma is_opt_precision_not_others:
  assumes "is_opt a ''-p'' ''--precision''"
  shows "\<not> is_opt a ''-h'' ''--help''" and "\<not> is_opt a ''-j'' ''--json''"
  using assms by (auto simp: is_opt_def)

lemma main_with_from:
  "main_with calc (prog # args) e =
     (case parse_args_from prog args default_config no_output of
        (Exited n, out) \<Rightarrow> (Exit n, out)
      | (Returned config, out) \<Rightarrow>
          (case input_file config of
             Some name \<Rightarrow>
               (case files e name of
                  None \<Rightarrow>
                    (Exit 1,
                     eprintf (''Error: Cannot open file '' @ [CHR 0x27] @ name @ [CHR 0x27] @ nl)
                       out)
                | Some file \<Rightarrow> process calc config e file out)
           | None \<Rightarrow> process calc config e (stdin_stream e) out))"
  by (simp add: main_with_def parse_args_def)

lemma int_of_long_id: "- (2 ^ 31) \<le> v \<Longrightarrow> v < 2 ^ 31 \<Longrightarrow> int_of_long v = v"
  by (simp add: int_of_long_def)

lemma atoi_integer_value:
  assumes "- (2 ^ 31) \<le> integer_value v" and "integer_value v < 2 ^ 31"
  shows "atoi v = integer_value v"
  using assms by (simp add: atoi_def strtol_def int_of_long_id)

text \<open>
  C8, as amended.  A precision argument that \<^verbatim>\<open>atoi\<close> reads as an \<^verbatim>\<open>int\<close> outside 0..10 is
  not fatal: \<^verbatim>\<open>parse_args\<close> writes the warning, sets the precision to the default 4 and
  goes on with the arguments that follow; when the option comes first, the whole program
  ends as it does without the option, with the warning in front of what it writes to
  the error stream.  What \<^verbatim>\<open>atoi\<close> reads is the integer value of the argument whenever an
  \<^verbatim>\<open>int\<close> of 32 bits holds that value.
\<close>

theorem precision_out_of_range_recovers:
  assumes "is_opt a ''-p'' ''--precision''" and "atoi v < 0 \<or> 10 < atoi v"
  shows "parse_args_from prog (a # v # rest) config out =
           parse_args_from prog rest (config\<lparr>precision := 4\<rparr>) (eprintf precision_warning out)
       \<and> main_with calc (prog # a # v # rest) e =
           (case main_with calc (prog # rest) e of
              (r, d) \<Rightarrow> (r, append_out (eprintf precision_warning no_output) d))
       \<and> precision_warning =
           ''Warning: Precision should be between 0 and 10. Using default (4).'' @ nl
       \<and> (- (2 ^ 31) \<le> integer_value v \<and> integer_value v < 2 ^ 31 \<longrightarrow>
            atoi v = integer_value v)"
proof -
  have step: "parse_args_from prog (a # v # rest) c out' =
           parse_args_from prog rest (c\<lparr>precision := 4\<rparr>) (eprintf precision_warning out')"
    for c out'
    using assms is_opt_precision_not_others [OF assms(1)]
    by (simp add: parse_args_from.simps(2) Let_def)
  have dc: "default_config\<lparr>precision := 4\<rparr> = default_config"
    by (simp add: default_config_def)
  have "parse_args_from prog (a # v # rest) default_config no_output =
          parse_args_from prog rest default_config
            (append_out (eprintf precision_warning no_output) no_output)"
    using step [of default_config no_output] by (simp only: dc append_out_no_output)
  also have "\<dots> = (case parse_args_from prog rest default_config no_output of
                      (r, d) \<Rightarrow> (r, append_out (eprintf precision_warning no_output) d))"
    by (rule parse_args_from_append)
  finally have p: "parse_args_from prog (a # v # rest) default_config no_output =
     (case parse_args_from prog rest default_config no_output of
        (r, d) \<Rightarrow> (r, append_out (eprintf precision_warning no_output) d))" .
  have "main_with calc (prog # a # v # rest) e =
           (case main_with calc (prog # rest) e of
              (r, d) \<Rightarrow> (r, append_out (eprintf precision_warning no_output) d))"
    unfolding main_with_from p
    by (simp add: eprintf_append process_append
        split: prod.splits parse_result.splits option.splits)
  with step atoi_integer_value [of v] show ?thesis by (simp add: precision_warning_def)
qed


subsection \<open>Exponents\<close>

lemma two_powi_pos [simp]: "0 < (2::real) powi k"
  by (simp add: zero_less_power_int)

lemma real_le_pow2: "n \<le> 2 ^ k \<Longrightarrow> real n \<le> 2 ^ k"
  by (metis of_nat_le_iff of_nat_numeral of_nat_power)

lemma pow2_le_real: "2 ^ k \<le> n \<Longrightarrow> (2::real) ^ k \<le> real n"
  by (metis of_nat_le_iff of_nat_numeral of_nat_power)

lemma ilog2_ge1:
  assumes "1 \<le> x"
  shows "2 powi (ilog2 x) \<le> x" and "x < 2 powi (ilog2 x + 1)"
proof -
  define n where "n = nat \<lfloor>x\<rfloor>"
  define f where "f = floorlog 2 n"
  have n: "0 < n" "real n \<le> x" "x < real n + 1"
    using assms by (auto simp: n_def)
  have f: "0 < f" using n(1) by (simp add: f_def floorlog_def)
  have il: "ilog2 x = int f - 1"
    using assms by (simp add: ilog2_def n_def f_def)
  have h: "2 ^ (f - 1) \<le> n" "n + 1 \<le> 2 ^ f"
    using floorlog_bounds [OF n(1), of 2] by (simp_all add: f_def)
  have b: "(2::real) ^ (f - 1) \<le> real n" "real (n + 1) \<le> 2 ^ f"
    using h(1) apply (rule pow2_le_real) using h(2) by (rule real_le_pow2)
  have e1: "(2::real) powi (int f - 1) = 2 ^ (f - 1)"
    using f by (simp add: power_int_def nat_diff_distrib')
  have e2: "(2::real) powi (int f - 1 + 1) = 2 ^ f"
    by simp
  show "2 powi (ilog2 x) \<le> x"
    unfolding il e1 using b(1) n(2) by linarith
  show "x < 2 powi (ilog2 x + 1)"
    unfolding il e2 using b(2) n(3) by simp
qed

lemma ilog2_lt1:
  assumes "0 < x" "x < 1"
  shows "2 powi (ilog2 x) \<le> x" and "x < 2 powi (ilog2 x + 1)"
proof -
  define c where "c = nat \<lceil>1 / x\<rceil>"
  define g where "g = floorlog 2 (c - 1)"
  have y: "1 < 1 / x" using assms by simp
  have c: "2 \<le> c" "1 / x \<le> real c" "real c < 1 / x + 1"
    using y unfolding c_def by (auto simp: le_nat_iff less_ceiling_iff of_nat_ceiling) linarith
  have c1: "0 < c - 1" using c by simp
  have g: "0 < g" using c1 by (simp add: g_def floorlog_def)
  have il: "ilog2 x = - int g"
    using assms by (simp add: ilog2_def c_def g_def)
  have "2 ^ (g - 1) \<le> c - 1" "c - 1 < 2 ^ g"
    using floorlog_bounds [OF c1, of 2] by (simp_all add: g_def)
  then have h: "2 ^ (g - 1) \<le> c - 1" "c \<le> 2 ^ g"
    using c1 by linarith+
  have r: "(2::real) ^ (g - 1) \<le> real (c - 1)" "real c \<le> 2 ^ g"
    using h(1) apply (rule pow2_le_real) using h(2) by (rule real_le_pow2)
  have "real (c - 1) = real c - 1" using c(1) by (simp add: of_nat_diff)
  then have b: "(2::real) ^ (g - 1) < 1 / x" "1 / x \<le> 2 ^ g"
    using c r by linarith+
  have e1: "(2::real) powi (- int g) = 1 / 2 ^ g"
    by (simp add: power_int_minus_divide)
  have "- int g + 1 = - int (g - 1)" using g by simp
  then have e2: "(2::real) powi (- int g + 1) = 1 / 2 ^ (g - 1)"
    by (simp only: power_int_minus_divide power_int_of_nat)
  show "2 powi (ilog2 x) \<le> x"
    unfolding il e1 using b(2) assms(1) by (simp add: field_simps)
  show "x < 2 powi (ilog2 x + 1)"
    unfolding il e2 using b(1) assms(1) by (simp add: field_simps)
qed

lemma ilog2_bounds:
  assumes "0 < x"
  shows "2 powi (ilog2 x) \<le> x" and "x < 2 powi (ilog2 x + 1)"
  using ilog2_ge1 [of x] ilog2_lt1 [of x] assms by (cases "1 \<le> x"; simp)+

lemma powi_less_iff [simp]: "(2::real) powi a < 2 powi b \<longleftrightarrow> a < b"
proof
  assume "(2::real) powi a < 2 powi b"
  show "a < b"
  proof (rule ccontr)
    assume "\<not> a < b"
    then have "b \<le> a" by simp
    then have "(2::real) powi b \<le> 2 powi a" by (intro power_int_increasing) simp_all
    with \<open>(2::real) powi a < 2 powi b\<close> show False by simp
  qed
next
  assume "a < b"
  then show "(2::real) powi a < 2 powi b" by (intro power_int_strict_increasing) simp_all
qed

lemma powi_le_iff [simp]: "(2::real) powi a \<le> 2 powi b \<longleftrightarrow> a \<le> b"
  using powi_less_iff [of b a] by (simp only: not_less [symmetric])

lemma powi_add: "(2::real) powi (a + b) = 2 powi a * 2 powi b"
  by (simp add: power_int_add)

lemma powi_diff: "(2::real) powi (a - b) = 2 powi a / 2 powi b"
  by (simp add: power_int_diff)

text \<open>\<open>ilog2\<close> is the only exponent with these bounds.\<close>

lemma ilog2_unique:
  assumes "2 powi k \<le> x" and "x < 2 powi (k + 1)"
  shows "ilog2 x = k"
proof -
  have x: "0 < x" using assms(1) two_powi_pos [of k] by linarith
  note b = ilog2_bounds [OF x]
  have "(2::real) powi k < 2 powi (ilog2 x + 1)" using assms(1) b(2) by linarith
  moreover have "(2::real) powi (ilog2 x) < 2 powi (k + 1)" using assms(2) b(1) by linarith
  ultimately show ?thesis by simp
qed

lemma ilog2_mono:
  assumes "0 < x" "x \<le> y"
  shows "ilog2 x \<le> ilog2 y"
proof -
  have "(2::real) powi (ilog2 x) < 2 powi (ilog2 y + 1)"
    using ilog2_bounds(1) [OF assms(1)] ilog2_bounds(2) [of y] assms by linarith
  then show ?thesis by simp
qed

lemma ilog2_less_pow:
  assumes "0 < x" "x < 2 powi k"
  shows "ilog2 x < k"
proof -
  have "(2::real) powi (ilog2 x) < 2 powi k"
    using ilog2_bounds(1) [OF assms(1)] assms(2) by linarith
  then show ?thesis by simp
qed

lemma ilog2_ge_pow:
  assumes "2 powi k \<le> x"
  shows "k \<le> ilog2 x"
proof -
  have x: "0 < x" using assms two_powi_pos [of k] by linarith
  have "(2::real) powi k < 2 powi (ilog2 x + 1)"
    using ilog2_bounds(2) [OF x] assms by linarith
  then show ?thesis by simp
qed

subsection \<open>Rounding to an integer\<close>

lemma round_half_even_cases:
  "round_half_even x = \<lfloor>x\<rfloor> \<or> round_half_even x = \<lfloor>x\<rfloor> + 1"
  by (simp add: round_half_even_def Let_def)

lemma round_half_even_of_int [simp]: "round_half_even (of_int n) = n"
  by (simp add: round_half_even_def)

lemma round_half_even_close:
  "\<bar>of_int (round_half_even x) - x\<bar> \<le> 1 / 2"
  unfolding round_half_even_def Let_def by (auto simp: abs_if) linarith+

lemma round_half_even_le_int:
  assumes "x \<le> of_int n"
  shows "round_half_even x \<le> n"
proof (cases "x = of_int n")
  case True
  then show ?thesis by simp
next
  case False
  with assms have "x < of_int n" by simp
  then have "\<lfloor>x\<rfloor> < n" by (simp add: floor_less_iff)
  then show ?thesis using round_half_even_cases [of x] by auto
qed

lemma round_half_even_ge_int:
  assumes "of_int n \<le> x"
  shows "n \<le> round_half_even x"
proof -
  have "n \<le> \<lfloor>x\<rfloor>" using assms by (simp add: le_floor_iff)
  then show ?thesis using round_half_even_cases [of x] by auto
qed

lemma round_half_even_mono:
  assumes "x \<le> y"
  shows "round_half_even x \<le> round_half_even y"
proof (cases "\<lfloor>x\<rfloor> = \<lfloor>y\<rfloor>")
  case True
  then show ?thesis using assms
    by (auto simp: round_half_even_def Let_def)
next
  case False
  then have "\<lfloor>x\<rfloor> < \<lfloor>y\<rfloor>" using assms floor_mono [of x y] by linarith
  then show ?thesis
    using round_half_even_cases [of x] round_half_even_cases [of y] by linarith
qed

subsection \<open>Rounding to a double\<close>

lemma powi_nat: "0 \<le> k \<Longrightarrow> (2::real) powi k = of_int (2 ^ nat k)"
  by (simp add: power_int_def)

lemma ulp_exp_ge: "- 1074 \<le> ulp_exp x"
  by (simp add: ulp_exp_def)

lemma ulp_exp_le:
  assumes "x \<noteq> 0" "\<bar>x\<bar> < 2 powi k" "- 1021 \<le> k"
  shows "ulp_exp x \<le> k - 53"
proof -
  have "ilog2 \<bar>x\<bar> < k" using assms by (intro ilog2_less_pow) simp_all
  then show ?thesis using assms(3) by (simp add: ulp_exp_def)
qed

lemma rnd_alt:
  "rnd x = (if x = 0 then Finite 0
            else if overflow_threshold \<le> \<bar>rval x\<bar> then (if 0 < x then PosInf else NegInf)
            else if rval x = 0 then (if x < 0 then NegZero else Finite 0)
            else Finite (rval x))"
  by (simp add: rnd_def rval_def sig_def Let_def)

lemma sig_nonneg: "0 \<le> x \<Longrightarrow> 0 \<le> sig x"
  unfolding sig_def by (rule round_half_even_ge_int) simp

lemma sig_nonpos: "x \<le> 0 \<Longrightarrow> sig x \<le> 0"
  unfolding sig_def by (rule round_half_even_le_int) (simp add: divide_le_0_iff)

lemma rval_nonneg: "0 \<le> x \<Longrightarrow> 0 \<le> rval x"
  using sig_nonneg [of x] by (simp add: rval_def)

lemma rval_nonpos: "x \<le> 0 \<Longrightarrow> rval x \<le> 0"
  using sig_nonpos [of x] by (simp add: rval_def mult_le_0_iff)

lemma rnd_nonneg:
  assumes "0 \<le> x"
  shows "rnd x = PosInf \<or> (\<exists>y. rnd x = Finite y \<and> 0 \<le> y)"
  using rval_nonneg [OF assms] assms by (auto simp: rnd_alt)

lemma rnd_not_NaN [simp]: "rnd x \<noteq> NaN"
  by (simp add: rnd_alt)

text \<open>A number with a significand of 53 bits and an exponent in range is not changed.\<close>

lemma rval_exact:
  assumes "x = of_int m * 2 powi e" "\<bar>m\<bar> < 2 ^ 53" "- 1074 \<le> e" "x \<noteq> 0"
  shows "rval x = x"
proof -
  define u where "u = ulp_exp x"
  have "\<bar>x\<bar> = of_int \<bar>m\<bar> * 2 powi e" by (simp add: assms(1) abs_mult)
  also have "\<dots> < of_int (2 ^ 53) * 2 powi e"
    using assms(2) by (intro mult_strict_right_mono) (simp_all only: of_int_less_iff two_powi_pos)
  also have "\<dots> = 2 powi (e + 53)" by (simp add: powi_add)
  finally have "\<bar>x\<bar> < 2 powi (e + 53)" .
  from ulp_exp_le [OF assms(4) this] assms(3) have ue: "u \<le> e" by (simp add: u_def)
  then have eu: "0 \<le> e - u" by simp
  have "x / 2 powi u = of_int m * 2 powi (e - u)" by (simp add: assms(1) powi_diff)
  also have "\<dots> = of_int (m * 2 ^ nat (e - u))" using powi_nat [OF eu] by simp
  finally have "sig x = m * 2 ^ nat (e - u)"
    unfolding sig_def u_def [symmetric] by (simp only: round_half_even_of_int)
  then have "rval x = of_int m * (2 powi (e - u) * 2 powi u)"
    using powi_nat [OF eu] by (simp add: rval_def u_def [symmetric])
  also have "\<dots> = x" by (simp add: assms(1) powi_diff)
  finally show ?thesis .
qed

lemma rnd_exact:
  assumes "x = of_int m * 2 powi e" "\<bar>m\<bar> < 2 ^ 53" "- 1074 \<le> e" "\<bar>x\<bar> < overflow_threshold"
  shows "rnd x = Finite x"
proof (cases "x = 0")
  case True
  then show ?thesis by (simp add: rnd_alt)
next
  case False
  with rval_exact [OF assms(1-3) False] assms(4) show ?thesis by (simp add: rnd_alt)
qed

text \<open>Rounding does not cross a power of two.\<close>

lemma rval_le_pow2:
  assumes "0 < x" "x \<le> 2 powi k" "- 1021 \<le> k"
  shows "rval x \<le> 2 powi k"
proof (cases "x = 2 powi k")
  case True
  have "rval x = x"
    using assms(1,3) by (intro rval_exact [of x 1 k]) (simp_all add: True)
  then show ?thesis using assms(2) by simp
next
  case False
  with assms have lt: "\<bar>x\<bar> < 2 powi k" "x \<noteq> 0" by simp_all
  define e where "e = ulp_exp x"
  have e: "e \<le> k - 53" unfolding e_def using lt assms(3) by (intro ulp_exp_le) simp_all
  then have ke: "0 \<le> k - e" by simp
  have "x / 2 powi e \<le> 2 powi k / 2 powi e"
    using assms(2) by (simp add: divide_right_mono)
  also have "\<dots> = of_int (2 ^ nat (k - e))"
    using powi_nat [OF ke] by (simp add: powi_diff)
  finally have "sig x \<le> 2 ^ nat (k - e)"
    unfolding sig_def e_def [symmetric] by (rule round_half_even_le_int)
  then have "real_of_int (sig x) \<le> of_int (2 ^ nat (k - e))" by (simp only: of_int_le_iff)
  then have "real_of_int (sig x) \<le> 2 powi (k - e)" using powi_nat [OF ke] by simp
  then have "real_of_int (sig x) * 2 powi e \<le> 2 powi (k - e) * 2 powi e"
    by (simp add: mult_right_mono)
  then show ?thesis by (simp add: rval_def e_def [symmetric] powi_diff)
qed

lemma pow_less_overflow: "k \<le> 1023 \<Longrightarrow> (2::real) ^ k < overflow_threshold"
  unfolding overflow_threshold_def by (intro power_strict_increasing) simp_all

lemma rnd_le_pow2:
  assumes "0 \<le> x" "x \<le> 2 ^ k" "k \<le> 1023"
  shows "\<exists>y. rnd x = Finite y \<and> 0 \<le> y \<and> y \<le> 2 ^ k"
proof (cases "x = 0")
  case True
  then show ?thesis by (simp add: rnd_alt)
next
  case False
  with assms have x: "0 < x" by simp
  have "x \<le> 2 powi (int k)" using assms(2) by simp
  from rval_le_pow2 [OF x this] have le: "rval x \<le> 2 ^ k" by simp
  with pow_less_overflow [OF assms(3)] have "\<bar>rval x\<bar> < overflow_threshold"
    using rval_nonneg [of x] x by simp
  then show ?thesis using x le rval_nonneg [of x] by (auto simp: rnd_alt)
qed

lemma rnd_int:
  assumes "\<bar>n\<bar> < 2 ^ 53"
  shows "rnd (of_int n) = Finite (of_int n)"
proof -
  have "\<bar>real_of_int n\<bar> < of_int (2 ^ 53)"
    using assms by (simp only: of_int_abs [symmetric] of_int_less_iff)
  also have "\<dots> < overflow_threshold" using pow_less_overflow [of 53] by simp
  finally show ?thesis using assms by (intro rnd_exact [of _ n 0]) simp_all
qed

subsection \<open>Counts and indices\<close>

lemma double_of_nat_bounded:
  assumes "n \<le> 2 ^ 61"
  shows "\<exists>y. double_of_nat n = Finite y \<and> 0 \<le> y \<and> y \<le> 2 ^ 61"
proof -
  have "real n \<le> 2 ^ 61" using assms by (rule real_le_pow2)
  then show ?thesis unfolding double_of_nat_def by (intro rnd_le_pow2) simp_all
qed

text \<open>The index of a percentile between 0 and 1 can be cast to \<^verbatim>\<open>size_t\<close>.\<close>

lemma index_bounded:
  assumes "n \<le> 2 ^ 61" "0 \<le> p" "p \<le> 1"
  shows "\<exists>r. dmul (Finite p) (double_of_nat n) = Finite r \<and> 0 \<le> r \<and> r \<le> 2 ^ 61"
proof -
  from double_of_nat_bounded [OF assms(1)] obtain y
    where y: "double_of_nat n = Finite y" "0 \<le> y" "y \<le> 2 ^ 61" by blast
  show ?thesis
  proof (cases "p = 0 \<or> y = 0")
    case True
    then show ?thesis using assms y
      by (auto simp: dmul_def is_zero_def is_inf_def signed_zero_def)
  next
    case False
    have "p * y \<le> 1 * 2 ^ 61" using assms y by (intro mult_mono) simp_all
    then have "\<exists>r. rnd (p * y) = Finite r \<and> 0 \<le> r \<and> r \<le> 2 ^ 61"
      using assms y by (intro rnd_le_pow2) simp_all
    then show ?thesis using False y
      by (simp add: dmul_def is_zero_def is_inf_def)
  qed
qed

lemma size_t_of_double_Finite:
  assumes "0 \<le> r" "r \<le> 2 ^ 61"
  shows "size_t_of_double (Finite r) = Some (nat \<lfloor>r\<rfloor>)"
proof -
  have "\<lfloor>r\<rfloor> \<le> 2 ^ 61" using assms(2) by (simp add: floor_le_iff) 
  then have "\<lfloor>r\<rfloor> < 2 ^ 64" by simp
  then show ?thesis using assms(1) by (simp add: size_t_of_double_def)
qed

lemma get_percentile_spec:
  assumes "2 \<le> length sorted_values" "length sorted_values \<le> 2 ^ 61" "0 \<le> p" "p \<le> 1"
  shows "get_percentile sorted_values (Finite p) = Some (percentile_spec sorted_values (Finite p))"
proof -
  have "length sorted_values - 1 \<le> 2 ^ 61" using assms(2) by simp
  from index_bounded [OF this assms(3,4)] obtain r
    where r: "dmul (Finite p) (double_of_nat (length sorted_values - 1)) = Finite r"
      "0 \<le> r" "r \<le> 2 ^ 61" by blast
  show ?thesis
    using assms(1) r(1) size_t_of_double_Finite [OF r(2,3)]
    by (auto simp: get_percentile_def percentile_spec_def Let_def)
qed


subsection \<open>The loops of \<^verbatim>\<open>calculate_stats\<close>\<close>

lemma sum_sq_diff_foldl:
  "sum_sq_diff vals m acc = foldl dadd acc (map (\<lambda>v. dmul (dsub v m) (dsub v m)) vals)"
  by (induction vals arbitrary: acc) (simp_all add: Let_def)

lemma sum_min_max_foldl:
  "sum_min_max vals (s, mn, mx) =
     (foldl dadd s vals,
      foldl (\<lambda>m v. if dlt v m then v else m) mn vals,
      foldl (\<lambda>m v. if dgt v m then v else m) mx vals)"
  by (induction vals arbitrary: s mn mx) simp_all

lemma length_insert_by [simp]: "length (insert_by cmp x ys) = Suc (length ys)"
  by (induction ys) simp_all

lemma length_qsort [simp]: "length (qsort cmp xs) = length xs"
  by (induction xs) (simp_all add: qsort_def)

text \<open>On an array that fits into memory, \<^verbatim>\<open>calculate_stats\<close> is defined and its fields are these.\<close>

lemma calculate_stats_fields:
  assumes "vals = v0 # rest" "length vals \<le> 2 ^ 61"
  shows "\<exists>md p25 p75.
     calculate_stats vals =
       Some \<lparr>count_v = length vals,
             sum_v = foldl dadd (Finite 0) vals,
             mean = ddiv (foldl dadd (Finite 0) vals) (double_of_nat (length vals)),
             min_v = foldl (\<lambda>m v. if dlt v m then v else m) v0 vals,
             max_v = foldl (\<lambda>m v. if dgt v m then v else m) v0 vals,
             range_v = dsub (foldl (\<lambda>m v. if dgt v m then v else m) v0 vals)
                            (foldl (\<lambda>m v. if dlt v m then v else m) v0 vals),
             median = md, q1 = p25, q3 = p75,
             variance = ddiv (sum_sq_dev vals
                                (ddiv (foldl dadd (Finite 0) vals) (double_of_nat (length vals))))
                          (double_of_nat (length vals)),
             stddev = dsqrt (ddiv (sum_sq_dev vals
                                (ddiv (foldl dadd (Finite 0) vals) (double_of_nat (length vals))))
                          (double_of_nat (length vals)))\<rparr>
     \<and> get_percentile (qsort compare_double vals) (Finite (1 / 2)) = Some md
     \<and> get_percentile (qsort compare_double vals) (Finite (1 / 4)) = Some p25
     \<and> get_percentile (qsort compare_double vals) (Finite (3 / 4)) = Some p75"
proof -
  let ?s = "qsort compare_double vals"
  have ex: "\<exists>q. get_percentile ?s (Finite p) = Some q" if "0 \<le> p" "p \<le> 1" for p
  proof (cases "2 \<le> length vals")
    case True
    then show ?thesis using get_percentile_spec [of ?s p] assms(2) that by simp
  next
    case False
    then have "length ?s = 1" using assms(1) by (cases rest) simp_all
    then show ?thesis by (simp add: get_percentile_def)
  qed
  from ex [of "1 / 2"] ex [of "1 / 4"] ex [of "3 / 4"] obtain md p25 p75 where
    "get_percentile ?s (Finite (1 / 2)) = Some md"
    "get_percentile ?s (Finite (1 / 4)) = Some p25"
    "get_percentile ?s (Finite (3 / 4)) = Some p75" by auto
  then show ?thesis
    by (simp add: calculate_stats_def sum_sq_dev_def assms(1) sum_min_max_foldl
        sum_sq_diff_foldl Let_def)
qed

subsection \<open>Evaluation on concrete inputs\<close>

lemmas fp_eval = rnd_def overflow_threshold_def ulp_exp_def ilog2_def round_half_even_def compute_floorlog Let_def
  dmul_def ddiv_def dsub_def is_zero_def is_inf_def signed_zero_def signed_inf_def
  double_of_nat_def size_t_of_double_def dlt_def dgt_def dle_def
lemmas stats_eval = fp_eval qsort_def compare_double_def get_percentile_def
  dsqrt_def rnd_sqrt_def isqrt.simps

lemma calculate_stats_eqI:
  assumes "vals = v0 # rest"
    and "sum_min_max vals (Finite 0, v0, v0) = (s, mn, mx)"
    and "ddiv s (double_of_nat (length vals)) = m"
    and "ddiv (sum_sq_diff vals m (Finite 0)) (double_of_nat (length vals)) = var"
    and "qsort compare_double vals = sorted_values"
    and "get_percentile sorted_values (Finite (1 / 2)) = Some md"
    and "get_percentile sorted_values (Finite (1 / 4)) = Some p25"
    and "get_percentile sorted_values (Finite (3 / 4)) = Some p75"
  shows "calculate_stats vals =
     Some \<lparr>count_v = length vals, sum_v = s, mean = m, min_v = mn, max_v = mx,
           range_v = dsub mx mn, median = md, q1 = p25, q3 = p75,
           variance = var, stddev = dsqrt var\<rparr>"
  using assms(2-) unfolding calculate_stats_def assms(1) by (simp add: Let_def)

lemma stats_1234:
  "calculate_stats [Finite 1, Finite 2, Finite 3, Finite 4] =
     Some \<lparr>count_v = 4, sum_v = Finite 10, mean = Finite (5 / 2), min_v = Finite 1,
           max_v = Finite 4, range_v = Finite 3, median = Finite (5 / 2),
           q1 = Finite (7 / 4), q3 = Finite (13 / 4), variance = Finite (5 / 4),
           stddev = Finite (629397181890197 / 562949953421312)\<rparr>"
proof -
  let ?vals = "[Finite 1, Finite 2, Finite 3, Finite 4]"
  have 1: "sum_min_max ?vals (Finite 0, Finite 1, Finite 1) = (Finite 10, Finite 1, Finite 4)"
    by (simp add: fp_eval)
  have 2: "ddiv (Finite 10) (double_of_nat (length ?vals)) = Finite (5 / 2)"
    by (simp add: fp_eval)
  have 3: "ddiv (sum_sq_diff ?vals (Finite (5 / 2)) (Finite 0)) (double_of_nat (length ?vals))
             = Finite (5 / 4)"
    by (simp add: fp_eval)
  have 4: "qsort compare_double ?vals = ?vals"
    by (simp add: stats_eval)
  have 5: "get_percentile ?vals (Finite (1 / 2)) = Some (Finite (5 / 2))"
    by (simp add: stats_eval)
  have 6: "get_percentile ?vals (Finite (1 / 4)) = Some (Finite (7 / 4))"
    by (simp add: stats_eval)
  have 7: "get_percentile ?vals (Finite (3 / 4)) = Some (Finite (13 / 4))"
    by (simp add: stats_eval)
  have 8: "dsub (Finite 4) (Finite 1) = Finite 3"
    by (simp add: stats_eval)
  have 9: "dsqrt (Finite (5 / 4)) = Finite (629397181890197 / 562949953421312)"
    by (simp add: stats_eval)
  show ?thesis
    using calculate_stats_eqI [OF refl 1 2 3 4 5 6 7] by (simp add: 8 9)
qed

lemma stats_24445579:
  "calculate_stats [Finite 2, Finite 4, Finite 4, Finite 4, Finite 5, Finite 5, Finite 7, Finite 9] =
     Some \<lparr>count_v = 8, sum_v = Finite 40, mean = Finite 5, min_v = Finite 2,
           max_v = Finite 9, range_v = Finite 7, median = Finite (9 / 2),
           q1 = Finite 4, q3 = Finite (11 / 2), variance = Finite 4,
           stddev = Finite 2\<rparr>"
proof -
  let ?vals = "[Finite 2, Finite 4, Finite 4, Finite 4, Finite 5, Finite 5, Finite 7, Finite 9]"
  have 1: "sum_min_max ?vals (Finite 0, Finite 2, Finite 2) = (Finite 40, Finite 2, Finite 9)"
    by (simp add: fp_eval)
  have 2: "ddiv (Finite 40) (double_of_nat (length ?vals)) = Finite 5"
    by (simp add: fp_eval)
  have 3: "ddiv (sum_sq_diff ?vals (Finite 5) (Finite 0)) (double_of_nat (length ?vals))
             = Finite 4"
    by (simp add: fp_eval)
  have 4: "qsort compare_double ?vals = ?vals"
    by (simp add: stats_eval)
  have 5: "get_percentile ?vals (Finite (1 / 2)) = Some (Finite (9 / 2))"
    by (simp add: stats_eval)
  have 6: "get_percentile ?vals (Finite (1 / 4)) = Some (Finite 4)"
    by (simp add: stats_eval)
  have 7: "get_percentile ?vals (Finite (3 / 4)) = Some (Finite (11 / 2))"
    by (simp add: stats_eval)
  have 8: "dsub (Finite 9) (Finite 2) = Finite 7"
    by (simp add: stats_eval)
  have 9: "dsqrt (Finite 4) = Finite 2"
    by (simp add: stats_eval)
  show ?thesis
    using calculate_stats_eqI [OF refl 1 2 3 4 5 6 7] by (simp add: 8 9)
qed

lemma frac_digits_pos:
  "0 < p \<Longrightarrow> frac_digits p n = frac_digits (p - 1) (n div 10) @ [digit_char (n mod 10)]"
  by (cases p) simp_all

lemmas fmt_eval = format_f_def fixed_def round_half_even_def show_nat.simps digit_char_def
  frac_digits_pos

lemmas atoi_eval = atoi_def strtol_def int_of_long_def integer_value_def after_sign_def
  isspace_def isdigit_def digit_val_def

lemma text_1234:
  "text_lines g \<lparr>count_v = 4, sum_v = Finite 10, mean = Finite (5 / 2), min_v = Finite 1,
           max_v = Finite 4, range_v = Finite 3, median = Finite (5 / 2),
           q1 = Finite (7 / 4), q3 = Finite (13 / 4), variance = Finite (5 / 4),
           stddev = Finite (629397181890197 / 562949953421312)\<rparr> 4 =
        [''Statistics for 4 numbers:'',
         ''  Sum:     10.0000'',
         ''  Mean:    2.5000'',
         ''  Median:  2.5000'',
         ''  Minimum: 1.0000'',
         ''  Maximum: 4.0000'',
         ''  Range:   3.0000'',
         ''  Q1:      1.7500'',
         ''  Q3:      3.2500'',
         ''  StdDev:  1.1180'']"
  by (simp add: text_lines_def fmt_eval)

lemma main_1234:
  "main [''numstat'']
     \<lparr>files = (\<lambda>name. None),
      stdin_stream = [Some (Finite 1), Some (Finite 2), Some (Finite 3), Some (Finite 4)],
      mem_limit = 4096, nan_sign = g\<rparr> =
     (Exit 0, \<lparr>stdout = concat (map (\<lambda>l. l @ nl)
        [''Statistics for 4 numbers:'',
         ''  Sum:     10.0000'',
         ''  Mean:    2.5000'',
         ''  Median:  2.5000'',
         ''  Minimum: 1.0000'',
         ''  Maximum: 4.0000'',
         ''  Range:   3.0000'',
         ''  Q1:      1.7500'',
         ''  Q3:      3.2500'',
         ''  StdDev:  1.1180'']), stderr = []\<rparr>)"
  by (simp add: main_def main_with_def parse_args_def default_config_def no_output_def
      process_def read_numbers_def alloc_ok_def stats_1234
      print_stats_text_def text_1234 printf_def)

text \<open>The input \<^verbatim>\<open>inf\<close>: the range and the standard deviation are NaN.\<close>

lemma stats_inf:
  "calculate_stats [PosInf] =
     Some \<lparr>count_v = 1, sum_v = PosInf, mean = PosInf, min_v = PosInf, max_v = PosInf,
           range_v = NaN, median = PosInf, q1 = PosInf, q3 = PosInf, variance = NaN,
           stddev = NaN\<rparr>"
  by (simp add: calculate_stats_def stats_eval)

lemma main_inf:
  "main [''numstat'']
     \<lparr>files = (\<lambda>name. None), stdin_stream = [Some PosInf], mem_limit = 4096,
      nan_sign = (\<lambda>k. True)\<rparr> =
     (Exit 0, \<lparr>stdout = concat (map (\<lambda>l. l @ nl)
        [''Statistics for 1 numbers:'',
         ''  Sum:     inf'',
         ''  Mean:    inf'',
         ''  Median:  inf'',
         ''  Minimum: inf'',
         ''  Maximum: inf'',
         ''  Range:   -nan'',
         ''  Q1:      inf'',
         ''  Q3:      inf'',
         ''  StdDev:  -nan'']), stderr = []\<rparr>)"
  by (simp add: main_def main_with_def parse_args_def default_config_def no_output_def
      process_def read_numbers_def alloc_ok_def stats_inf
      print_stats_text_def text_lines_def printf_def format_f_def show_nat.simps digit_char_def)

theorem precision_out_of_range_recovers_witness:
  "is_opt ''-p'' ''-p'' ''--precision'' \<and> atoi ''15'' = 15 \<and> integer_value ''15'' = 15 \<and>
   parse_args_from ''numstat'' [''-p'', ''15''] default_config no_output =
     (Returned default_config,
      \<lparr>stdout = [],
       stderr = ''Warning: Precision should be between 0 and 10. Using default (4).'' @ nl\<rparr>) \<and>
   main_with calculate_stats [''numstat'', ''-p'', ''15'']
     \<lparr>files = (\<lambda>name. None),
      stdin_stream = [Some (Finite 1), Some (Finite 2), Some (Finite 3), Some (Finite 4)],
      mem_limit = 4096, nan_sign = (\<lambda>k. False)\<rparr> =
     (Exit 0, \<lparr>stdout = concat (map (\<lambda>l. l @ nl)
        [''Statistics for 4 numbers:'',
         ''  Sum:     10.0000'',
         ''  Mean:    2.5000'',
         ''  Median:  2.5000'',
         ''  Minimum: 1.0000'',
         ''  Maximum: 4.0000'',
         ''  Range:   3.0000'',
         ''  Q1:      1.7500'',
         ''  Q3:      3.2500'',
         ''  StdDev:  1.1180'']),
        stderr = ''Warning: Precision should be between 0 and 10. Using default (4).'' @ nl\<rparr>)"
proof -
  have a: "is_opt ''-p'' ''-p'' ''--precision''" by (simp add: is_opt_def)
  have b: "atoi ''15'' = 15" "integer_value ''15'' = 15" by (simp_all add: atoi_eval)
  have c: "atoi ''15'' < 0 \<or> 10 < atoi ''15''" by (simp add: b)
  show ?thesis
    using precision_out_of_range_recovers [OF a c, of "''numstat''" "[]" default_config
        no_output calculate_stats
        "\<lparr>files = (\<lambda>name. None),
          stdin_stream = [Some (Finite 1), Some (Finite 2), Some (Finite 3), Some (Finite 4)],
          mem_limit = 4096, nan_sign = (\<lambda>k. False)\<rparr>"]
      main_1234 [of "\<lambda>k. False"] a b
    by (simp add: main_def default_config_def no_output_def eprintf_def append_out_def
        precision_warning_def)
qed

text \<open>
  C8, as stated, fails: the integer value of the argument \<^verbatim>\<open>4294967301\<close> is outside 0..10,
  but it is \<open>2^32 + 5\<close>, of which \<^verbatim>\<open>atoi\<close> keeps the low 32 bits: the precision becomes 5,
  no warning is written, and the statistics are printed with five decimals.
\<close>

theorem precision_wraps_counterexample:
  "integer_value ''4294967301'' = 4294967301 \<and> atoi ''4294967301'' = 5 \<and>
   parse_args [''numstat'', ''-p'', ''4294967301''] default_config no_output =
     (Returned (default_config\<lparr>precision := 5\<rparr>), no_output) \<and>
   main [''numstat'', ''-p'', ''4294967301'']
     \<lparr>files = (\<lambda>name. None),
      stdin_stream = [Some (Finite 1), Some (Finite 2), Some (Finite 3), Some (Finite 4)],
      mem_limit = 4096, nan_sign = (\<lambda>k. False)\<rparr> =
     (Exit 0, \<lparr>stdout = concat (map (\<lambda>l. l @ nl)
        [''Statistics for 4 numbers:'',
         ''  Sum:     10.00000'',
         ''  Mean:    2.50000'',
         ''  Median:  2.50000'',
         ''  Minimum: 1.00000'',
         ''  Maximum: 4.00000'',
         ''  Range:   3.00000'',
         ''  Q1:      1.75000'',
         ''  Q3:      3.25000'',
         ''  StdDev:  1.11803'']), stderr = []\<rparr>)"
proof -
  have a: "integer_value ''4294967301'' = 4294967301" "atoi ''4294967301'' = 5"
    by (simp_all add: atoi_eval)
  have o: "is_opt ''-p'' ''-p'' ''--precision''" "\<not> is_opt ''-p'' ''-h'' ''--help''"
    "\<not> is_opt ''-p'' ''-j'' ''--json''"
    by (simp_all add: is_opt_def)
  have p: "parse_args [''numstat'', ''-p'', ''4294967301''] default_config no_output =
     (Returned (default_config\<lparr>precision := 5\<rparr>), no_output)"
    by (simp add: parse_args_def parse_args_from.simps(2) o a(2))
  have t: "text_lines (\<lambda>k. False)
          \<lparr>count_v = 4, sum_v = Finite 10, mean = Finite (5 / 2), min_v = Finite 1,
           max_v = Finite 4, range_v = Finite 3, median = Finite (5 / 2),
           q1 = Finite (7 / 4), q3 = Finite (13 / 4), variance = Finite (5 / 4),
           stddev = Finite (629397181890197 / 562949953421312)\<rparr> 5 =
        [''Statistics for 4 numbers:'',
         ''  Sum:     10.00000'',
         ''  Mean:    2.50000'',
         ''  Median:  2.50000'',
         ''  Minimum: 1.00000'',
         ''  Maximum: 4.00000'',
         ''  Range:   3.00000'',
         ''  Q1:      1.75000'',
         ''  Q3:      3.25000'',
         ''  StdDev:  1.11803'']"
    by (simp add: text_lines_def fmt_eval)
  have m: "main [''numstat'', ''-p'', ''4294967301'']
     \<lparr>files = (\<lambda>name. None),
      stdin_stream = [Some (Finite 1), Some (Finite 2), Some (Finite 3), Some (Finite 4)],
      mem_limit = 4096, nan_sign = (\<lambda>k. False)\<rparr> =
     (Exit 0, \<lparr>stdout = concat (map (\<lambda>l. l @ nl)
        [''Statistics for 4 numbers:'',
         ''  Sum:     10.00000'',
         ''  Mean:    2.50000'',
         ''  Median:  2.50000'',
         ''  Minimum: 1.00000'',
         ''  Maximum: 4.00000'',
         ''  Range:   3.00000'',
         ''  Q1:      1.75000'',
         ''  Q3:      3.25000'',
         ''  StdDev:  1.11803'']), stderr = []\<rparr>)"
    unfolding main_def main_with_def p
    by (simp add: default_config_def no_output_def
      process_def read_numbers_def alloc_ok_def stats_1234
      print_stats_text_def t printf_def)
  from a p m show ?thesis by simp
qed

text \<open>
  C10.  An argument of \<^verbatim>\<open>-p\<close> that holds no number makes \<^verbatim>\<open>atoi\<close> return 0, which is in
  the range 0..10: the precision becomes 0, nothing is written and nothing ends the
  program; the command line behaves as with \<^verbatim>\<open>-p 0\<close>.
\<close>

theorem malformed_precision_is_zero:
  assumes "is_opt a ''-p'' ''--precision''" and "no_digits v"
  shows "atoi v = 0
       \<and> parse_args_from prog (a # v # rest) config out =
           parse_args_from prog rest (config\<lparr>precision := 0\<rparr>) out
       \<and> parse_args_from prog (a # v # rest) config out =
           parse_args_from prog (a # ''0'' # rest) config out"
proof -
  have z: "atoi v = 0"
    using assms(2)
    by (simp add: atoi_def strtol_def int_of_long_def integer_value_def no_digits_def Let_def)
  have z0: "atoi ''0'' = 0"
    by (simp add: atoi_eval)
  show ?thesis
    using z z0 assms(1) is_opt_precision_not_others [OF assms(1)]
    by (simp add: parse_args_from.simps(2))
qed

theorem malformed_precision_is_zero_witness:
  "is_opt ''-p'' ''-p'' ''--precision'' \<and> no_digits ''abc'' \<and> atoi ''abc'' = 0 \<and>
   parse_args [''numstat'', ''-p'', ''abc''] default_config no_output =
     (Returned (default_config\<lparr>precision := 0\<rparr>), no_output) \<and>
   parse_args [''numstat'', ''-p'', ''abc''] default_config no_output =
     parse_args [''numstat'', ''-p'', ''0''] default_config no_output"
proof -
  have a: "is_opt ''-p'' ''-p'' ''--precision''" by (simp add: is_opt_def)
  have b: "no_digits ''abc''" by (simp add: no_digits_def after_sign_def isspace_def isdigit_def)
  show ?thesis
    using malformed_precision_is_zero [OF a b, of "''numstat''" "[]" default_config no_output] a b
    by (auto simp: parse_args_def)
qed

subsection \<open>Percentiles and variance\<close>

text \<open>
  C1.  For a sequence of at least two elements (and no more than an array of doubles can
  hold) and a fraction \<open>p\<close> between 0 and 1, \<^verbatim>\<open>get_percentile\<close> returns what the
  specification describes: the index \<open>p * (count - 1)\<close> is a finite number that is not
  negative, so the cast is its floor, and the result is the last element when
  \<open>upper \<ge> count\<close> and the interpolation \<open>sorted[lower] * (1 - weight) + sorted[upper] * weight\<close>
  otherwise.  On \<open>[1, 2, 3, 4]\<close> the median is 2.5, the first quartile 1.75 and the third 3.25.
\<close>

theorem get_percentile_interpolates:
  assumes "2 \<le> length sorted_values" and "length sorted_values \<le> 2 ^ 61"
    and "0 \<le> p" and "p \<le> 1"
  shows "get_percentile sorted_values (Finite p) = Some (percentile_spec sorted_values (Finite p))
       \<and> (\<exists>r. dmul (Finite p) (double_of_nat (length sorted_values - 1)) = Finite r \<and> 0 \<le> r)
       \<and> (\<exists>st. calculate_stats [Finite 1, Finite 2, Finite 3, Finite 4] = Some st
              \<and> median st = Finite (5 / 2) \<and> q1 st = Finite (7 / 4) \<and> q3 st = Finite (13 / 4))"
proof -
  have "length sorted_values - 1 \<le> 2 ^ 61" using assms(2) by simp
  from index_bounded [OF this assms(3,4)]
  have "\<exists>r. dmul (Finite p) (double_of_nat (length sorted_values - 1)) = Finite r \<and> 0 \<le> r"
    by blast
  then show ?thesis
    using get_percentile_spec [OF assms] stats_1234 by simp
qed

theorem get_percentile_interpolates_witness:
  "2 \<le> length [Finite 1, Finite 2, Finite 3, Finite 4]
   \<and> length [Finite 1, Finite 2, Finite 3, Finite 4] \<le> 2 ^ 61
   \<and> get_percentile [Finite 1, Finite 2, Finite 3, Finite 4] (Finite (1 / 2)) = Some (Finite (5 / 2))
   \<and> percentile_spec [Finite 1, Finite 2, Finite 3, Finite 4] (Finite (1 / 2)) = Finite (5 / 2)
   \<and> percentile_spec [Finite 1, Finite 2, Finite 3, Finite 4] (Finite (1 / 4)) = Finite (7 / 4)
   \<and> percentile_spec [Finite 1, Finite 2, Finite 3, Finite 4] (Finite (3 / 4)) = Finite (13 / 4)"
proof -
  let ?xs = "[Finite 1, Finite 2, Finite 3, Finite 4]"
  have l: "2 \<le> length ?xs" "length ?xs \<le> 2 ^ 61" by simp_all
  have g1: "get_percentile ?xs (Finite (1 / 2)) = Some (Finite (5 / 2))"
    by (simp add: stats_eval)
  have g2: "get_percentile ?xs (Finite (1 / 4)) = Some (Finite (7 / 4))"
    by (simp add: stats_eval)
  have g3: "get_percentile ?xs (Finite (3 / 4)) = Some (Finite (13 / 4))"
    by (simp add: stats_eval)
  have s1: "percentile_spec ?xs (Finite (1 / 2)) = Finite (5 / 2)"
    using get_percentile_interpolates [OF l, of "1 / 2"] by (simp add: g1)
  have s2: "percentile_spec ?xs (Finite (1 / 4)) = Finite (7 / 4)"
    using get_percentile_interpolates [OF l, of "1 / 4"] by (simp add: g2)
  have s3: "percentile_spec ?xs (Finite (3 / 4)) = Finite (13 / 4)"
    using get_percentile_interpolates [OF l, of "3 / 4"] by (simp add: g3)
  from l g1 s1 s2 s3 show ?thesis by blast
qed

text \<open>
  C2.  For a sequence that is not empty, \<^verbatim>\<open>calculate_stats\<close> sets the variance to the sum of
  the squared deviations from the mean divided by \<open>count\<close> (not by \<open>count - 1\<close>), and the
  standard deviation to its square root.  On \<open>[2, 4, 4, 4, 5, 5, 7, 9]\<close> the mean is 5, the
  variance 4 and the standard deviation 2.
\<close>

theorem variance_is_population_variance:
  assumes "vals \<noteq> []" and "length vals \<le> 2 ^ 61"
  shows "(\<exists>st. calculate_stats vals = Some st
            \<and> sum_v st = foldl dadd (Finite 0) vals
            \<and> mean st = ddiv (sum_v st) (double_of_nat (length vals))
            \<and> variance st = ddiv (sum_sq_dev vals (mean st)) (double_of_nat (length vals))
            \<and> stddev st = dsqrt (variance st))
       \<and> (\<exists>st. calculate_stats [Finite 2, Finite 4, Finite 4, Finite 4,
                                   Finite 5, Finite 5, Finite 7, Finite 9] = Some st
              \<and> mean st = Finite 5 \<and> variance st = Finite 4 \<and> stddev st = Finite 2)"
proof -
  from assms(1) obtain v0 rest where v: "vals = v0 # rest" by (cases vals) auto
  from calculate_stats_fields [OF v assms(2)] stats_24445579 show ?thesis by auto
qed

theorem variance_is_population_variance_witness:
  "[Finite 1, Finite 2, Finite 3, Finite 4] \<noteq> []
   \<and> length [Finite 1, Finite 2, Finite 3, Finite 4] \<le> 2 ^ 61
   \<and> sum_sq_dev [Finite 1, Finite 2, Finite 3, Finite 4] (Finite (5 / 2)) = Finite 5
   \<and> ddiv (Finite 5) (double_of_nat (length [Finite 1, Finite 2, Finite 3, Finite 4]))
       = Finite (5 / 4)
   \<and> (\<exists>st. calculate_stats [Finite 1, Finite 2, Finite 3, Finite 4] = Some st
          \<and> mean st = Finite (5 / 2)
          \<and> variance st = Finite (5 / 4)
          \<and> stddev st = dsqrt (Finite (5 / 4)))"
proof -
  let ?xs = "[Finite 1, Finite 2, Finite 3, Finite 4]"
  have l: "?xs \<noteq> []" "length ?xs \<le> 2 ^ 61" by simp_all
  have a: "sum_sq_dev ?xs (Finite (5 / 2)) = Finite 5"
    by (simp add: sum_sq_dev_def fp_eval)
  have b: "ddiv (Finite 5) (double_of_nat (length ?xs)) = Finite (5 / 4)"
    by (simp add: fp_eval)
  have c: "foldl dadd (Finite 0) ?xs = Finite 10"
    by (simp add: fp_eval)
  have d: "ddiv (Finite 10) (double_of_nat (length ?xs)) = Finite (5 / 2)"
    by (simp add: fp_eval)
  from variance_is_population_variance [OF l] obtain st where
    st: "calculate_stats ?xs = Some st" "sum_v st = foldl dadd (Finite 0) ?xs"
      "mean st = ddiv (sum_v st) (double_of_nat (length ?xs))"
      "variance st = ddiv (sum_sq_dev ?xs (mean st)) (double_of_nat (length ?xs))"
      "stddev st = dsqrt (variance st)"
    by blast
  have m: "mean st = Finite (5 / 2)" by (simp only: st(2,3) c d)
  have v: "variance st = Finite (5 / 4)" by (simp only: st(4) m a b)
  have s: "stddev st = dsqrt (Finite (5 / 4))" by (simp only: st(5) v)
  from st(1) m v s have "\<exists>st. calculate_stats ?xs = Some st
          \<and> mean st = Finite (5 / 2)
          \<and> variance st = Finite (5 / 4)
          \<and> stddev st = dsqrt (Finite (5 / 4))" by blast
  with l a b show ?thesis by blast
qed

subsection \<open>Minimum and maximum\<close>

lemma dlt_NaN [simp]: "\<not> dlt NaN x" "\<not> dlt x NaN" "\<not> dgt NaN x" "\<not> dgt x NaN"
  by (simp_all add: dlt_def dgt_def)

lemma dlt_irrefl [simp]: "\<not> dlt x x" "\<not> dgt x x"
  by (simp_all add: dlt_def dgt_def)

lemma foldl_min_skip_NaN:
  "foldl (\<lambda>m v. if dlt v m then v else m) m (filter (\<lambda>v. v \<noteq> NaN) vs) =
   foldl (\<lambda>m v. if dlt v m then v else m) m vs"
  by (induction vs arbitrary: m) simp_all

lemma foldl_max_skip_NaN:
  "foldl (\<lambda>m v. if dgt v m then v else m) m (filter (\<lambda>v. v \<noteq> NaN) vs) =
   foldl (\<lambda>m v. if dgt v m then v else m) m vs"
  by (induction vs arbitrary: m) simp_all

lemma foldl_min_NaN: "foldl (\<lambda>m v. if dlt v m then v else m) NaN vs = NaN"
  by (induction vs) simp_all

lemma foldl_max_NaN: "foldl (\<lambda>m v. if dgt v m then v else m) NaN vs = NaN"
  by (induction vs) simp_all

text \<open>
  C9.  The minimum and the maximum start as the first element and are replaced only by
  an element that compares less (greater) with \<^verbatim>\<open><\<close> (\<^verbatim>\<open>>\<close>).  These comparisons are
  false whenever an operand is a NaN: a NaN later in the array never replaces them, and
  when the first element is a NaN they stay NaN.
\<close>

theorem min_max_plain_comparisons:
  assumes "vals = v0 # rest" and "length vals \<le> 2 ^ 61"
  shows "\<exists>st. calculate_stats vals = Some st
       \<and> min_v st = foldl (\<lambda>m v. if dlt v m then v else m) v0 rest
       \<and> max_v st = foldl (\<lambda>m v. if dgt v m then v else m) v0 rest
       \<and> (\<forall>x. \<not> dlt NaN x \<and> \<not> dlt x NaN \<and> \<not> dgt NaN x \<and> \<not> dgt x NaN)
       \<and> min_v st = foldl (\<lambda>m v. if dlt v m then v else m) v0 (filter (\<lambda>v. v \<noteq> NaN) rest)
       \<and> max_v st = foldl (\<lambda>m v. if dgt v m then v else m) v0 (filter (\<lambda>v. v \<noteq> NaN) rest)
       \<and> (v0 = NaN \<longrightarrow> min_v st = NaN \<and> max_v st = NaN)"
proof -
  from calculate_stats_fields [OF assms] obtain st where
    st: "calculate_stats vals = Some st"
      "min_v st = foldl (\<lambda>m v. if dlt v m then v else m) v0 vals"
      "max_v st = foldl (\<lambda>m v. if dgt v m then v else m) v0 vals"
    by force
  have mn: "min_v st = foldl (\<lambda>m v. if dlt v m then v else m) v0 rest"
    and mx: "max_v st = foldl (\<lambda>m v. if dgt v m then v else m) v0 rest"
    using st(2,3) by (simp_all add: assms(1))
  show ?thesis
    using st(1) mn mx
    by (auto simp: foldl_min_skip_NaN foldl_max_skip_NaN foldl_min_NaN foldl_max_NaN)
qed

theorem min_max_plain_comparisons_witness:
  "length [NaN, Finite 1, Finite 2] \<le> 2 ^ 61
   \<and> (\<exists>st. calculate_stats [NaN, Finite 1, Finite 2] = Some st
          \<and> min_v st = NaN \<and> max_v st = NaN)
   \<and> length [Finite 1, NaN, Finite 0] \<le> 2 ^ 61
   \<and> (\<exists>st. calculate_stats [Finite 1, NaN, Finite 0] = Some st
          \<and> min_v st = Finite 0 \<and> max_v st = Finite 1)"
proof -
  have l1: "length [NaN, Finite 1, Finite 2] \<le> 2 ^ 61"
    and l2: "length [Finite 1, NaN, Finite 0] \<le> 2 ^ 61" by simp_all
  from min_max_plain_comparisons [OF refl l1]
  have a: "\<exists>st. calculate_stats [NaN, Finite 1, Finite 2] = Some st
          \<and> min_v st = NaN \<and> max_v st = NaN"
    by auto
  from min_max_plain_comparisons [OF refl l2]
  have b: "\<exists>st. calculate_stats [Finite 1, NaN, Finite 0] = Some st
          \<and> min_v st = Finite 0 \<and> max_v st = Finite 1"
    by (auto simp: dlt_def dgt_def)
  from l1 l2 a b show ?thesis by blast
qed

subsection \<open>Reading\<close>

lemma scanned_simps [simp]:
  "scanned [] = []" "scanned (None # f) = []" "scanned (Some v # f) = v # scanned f"
  by (simp_all add: scanned_def)

lemma read_loop_cases:
  "read_loop mem f vals capacity = Values (vals @ scanned f)
   \<or> read_loop mem f vals capacity = Null
   \<or> read_loop mem f vals capacity = Out_of_bounds"
proof (induction f arbitrary: vals capacity)
  case Nil
  show ?case by simp
next
  case (Cons t f)
  show ?case
  proof (cases t)
    case None
    then show ?thesis by simp
  next
    case (Some num)
    show ?thesis
      using Cons.IH [of "vals @ [num]" capacity]
        Cons.IH [of "vals @ [num]" "capacity * 2 mod 2 ^ 64"]
      by (auto simp: Some Let_def)
  qed
qed

lemma read_loop_enough:
  assumes "0 < capacity" and "length vals \<le> capacity"
    and "8 * max capacity (2 * (length vals + length (scanned f))) \<le> mem" and "mem < 2 ^ 64"
  shows "read_loop mem f vals capacity = Values (vals @ scanned f)"
  using assms
proof (induction f arbitrary: vals capacity)
  case Nil
  show ?case by simp
next
  case (Cons t f)
  show ?case
  proof (cases t)
    case None
    then show ?thesis by simp
  next
    case (Some num)
    show ?thesis
    proof (cases "length vals \<ge> capacity")
      case False
      then have "read_loop mem (t # f) vals capacity = read_loop mem f (vals @ [num]) capacity"
        by (simp add: Some)
      also have "\<dots> = Values ((vals @ [num]) @ scanned f)"
        using Cons.prems False by (intro Cons.IH) (simp_all add: Some)
      finally show ?thesis by (simp add: Some)
    next
      case True
      with Cons.prems have eq: "length vals = capacity" by simp
      have b: "16 * capacity \<le> mem"
        using Cons.prems(3) eq by (simp add: Some)
      then have c: "capacity * 2 < 2 ^ 64" "capacity * 2 * 8 < 2 ^ 64"
        using Cons.prems(4) by simp_all
      then have m: "capacity * 2 mod 2 ^ 64 = capacity * 2"
        "capacity * 2 * 8 mod 2 ^ 64 = capacity * 2 * 8" by simp_all
      have "read_loop mem (t # f) vals capacity = read_loop mem f (vals @ [num]) (capacity * 2)"
        using True b Cons.prems(1) m by (simp add: Some Let_def alloc_ok_def)
      also have "\<dots> = Values ((vals @ [num]) @ scanned f)"
        using Cons.prems eq by (intro Cons.IH) (simp_all add: Some)
      finally show ?thesis by (simp add: Some)
    qed
  qed
qed

lemma read_loop_takeWhile:
  "read_loop mem (takeWhile (\<lambda>t. t \<noteq> None) f) vals capacity = read_loop mem f vals capacity"
proof (induction f arbitrary: vals capacity)
  case Nil
  show ?case by simp
next
  case (Cons t f)
  then show ?case by (cases t) (simp_all add: Let_def)
qed

text \<open>
  C5.  \<^verbatim>\<open>read_numbers\<close> appends the value of every call of \<^verbatim>\<open>fscanf\<close> that succeeds and
  stops at the first call that fails: what comes after that call in the stream has no
  influence, and the result is the sequence read so far, unless an allocation has
  failed before.  With memory for twice as many numbers as are read (and for the first
  16), the result is that sequence.
\<close>

theorem read_numbers_stops_at_first_failure:
  "read_numbers mem (good @ None # rest) = read_numbers mem good
   \<and> (read_numbers mem file = Values (scanned file)
        \<or> read_numbers mem file = Null \<or> read_numbers mem file = Out_of_bounds)
   \<and> (8 * max 16 (2 * length (scanned file)) \<le> mem \<and> mem < 2 ^ 64
        \<longrightarrow> read_numbers mem file = Values (scanned file))"
proof -
  have "takeWhile (\<lambda>t. t \<noteq> None) (good @ None # rest) = takeWhile (\<lambda>t. t \<noteq> None) good"
    by (induction good) simp_all
  then have "read_loop mem (good @ None # rest) [] 16 = read_loop mem good [] 16"
    using read_loop_takeWhile [of mem "good @ None # rest" "[]" 16]
      read_loop_takeWhile [of mem good "[]" 16] by simp
  then have a: "read_numbers mem (good @ None # rest) = read_numbers mem good"
    by (simp add: read_numbers_def)
  have b: "read_numbers mem file = Values (scanned file)
        \<or> read_numbers mem file = Null \<or> read_numbers mem file = Out_of_bounds"
    using read_loop_cases [of mem "file" "[]" 16] by (simp add: read_numbers_def)
  have c: "read_numbers mem file = Values (scanned file)"
    if "8 * max 16 (2 * length (scanned file)) \<le> mem" "mem < 2 ^ 64"
  proof -
    have "128 \<le> mem" using that(1) by simp
    moreover have "read_loop mem file [] 16 = Values ([] @ scanned file)"
      using that by (intro read_loop_enough) simp_all
    ultimately show ?thesis by (simp add: read_numbers_def alloc_ok_def)
  qed
  from a b c show ?thesis by blast
qed

theorem read_numbers_stops_at_first_failure_witness:
  "read_numbers 4096 [Some (Finite 1), Some (Finite 2), None, Some (Finite 3)]
     = read_numbers 4096 [Some (Finite 1), Some (Finite 2)]
   \<and> scanned [Some (Finite 1), Some (Finite 2), None, Some (Finite 3)] = [Finite 1, Finite 2]
   \<and> read_numbers 4096 [Some (Finite 1), Some (Finite 2), None, Some (Finite 3)]
     = Values [Finite 1, Finite 2]"
  using read_numbers_stops_at_first_failure
    [of 4096 "[Some (Finite 1), Some (Finite 2)]" "[Some (Finite 3)]"
        "[Some (Finite 1), Some (Finite 2), None, Some (Finite 3)]"]
  by auto

subsection \<open>No numbers\<close>

lemma read_numbers_nothing:
  assumes "scanned f = []" and "128 \<le> mem"
  shows "read_numbers mem f = Values []"
proof (cases f)
  case Nil
  then show ?thesis using assms(2) by (simp add: read_numbers_def alloc_ok_def)
next
  case (Cons t f')
  with assms(1) have "t = None" by (cases t) simp_all
  then show ?thesis using assms(2) Cons by (simp add: read_numbers_def alloc_ok_def)
qed



subsection \<open>The output\<close>

lemma digit_char_digit: "d < 10 \<Longrightarrow> digit_char d \<in> digits"
  unfolding digit_char_def digits_def by (intro nth_mem) simp

lemma show_nat_digits: "set (show_nat n) \<subseteq> digits \<and> show_nat n \<noteq> []"
proof (induction n rule: show_nat.induct)
  case (1 n)
  show ?case
  proof (cases "n < 10")
    case True
    then show ?thesis by (simp add: show_nat.simps [of n] digit_char_digit)
  next
    case False
    with 1 show ?thesis by (simp add: show_nat.simps [of n] digit_char_digit)
  qed
qed

lemma frac_digits_digits: "length (frac_digits p n) = p \<and> set (frac_digits p n) \<subseteq> digits"
  by (induction p arbitrary: n) (simp_all add: digit_char_digit)

text \<open>A finite value is written with exactly the digits that the precision asks for.\<close>

lemma format_f_finite:
  assumes "0 \<le> prec"
  shows "\<exists>ip fr. format_f neg prec (Finite r) =
            (if r < 0 then ''-'' else []) @ ip @ (if prec = 0 then [] else CHR ''.'' # fr)
          \<and> ip \<noteq> [] \<and> set ip \<subseteq> digits \<and> length fr = nat prec \<and> set fr \<subseteq> digits"
proof -
  define n where "n = nat (round_half_even (\<bar>r\<bar> * 10 ^ nat prec))"
  have "format_f neg prec (Finite r) =
      (if r < 0 then ''-'' else []) @ show_nat (n div 10 ^ nat prec) @
      (if prec = 0 then [] else CHR ''.'' # frac_digits (nat prec) (n mod 10 ^ nat prec))"
    using assms by (simp add: format_f_def fixed_def n_def Let_def)
  then show ?thesis
    using show_nat_digits [of "n div 10 ^ nat prec"]
      frac_digits_digits [of "nat prec" "n mod 10 ^ nat prec"]
    by blast
qed

lemma format_f_NegZero:
  assumes "0 \<le> prec"
  shows "\<exists>fr. format_f neg prec NegZero = ''-0'' @ (if prec = 0 then [] else CHR ''.'' # fr)
          \<and> length fr = nat prec \<and> set fr \<subseteq> digits"
proof -
  have "format_f neg prec NegZero =
      ''-0'' @ (if prec = 0 then [] else CHR ''.'' # frac_digits (nat prec) 0)"
    using assms
    by (simp add: format_f_def fixed_def round_half_even_def Let_def show_nat.simps [of 0]
        digit_char_def)
  then show ?thesis
    using frac_digits_digits [of "nat prec" 0] by blast
qed

lemma upt_9: "[0..<9] = [0, 1, 2, 3, 4, 5, 6, 7, 8]"
  by (simp add: eval_nat_numeral upt_rec)

lemma text_lines_fields:
  "text_lines signs stats prec =
     (''Statistics for '' @ show_nat (count_v stats) @ '' numbers:'')
       # map (\<lambda>(l, v). l @ v) (zip text_labels (formatted signs prec stats))"
  by (simp add: text_lines_def text_labels_def formatted_def numeric_fields_def upt_9)

lemma json_lines_fields:
  "json_lines signs stats prec =
     ''{'' # (json_member ''count'' (show_nat (count_v stats)) @ '','')
       # map (\<lambda>(k, v). json_member k v @ '','')
           (butlast (zip json_keys (formatted signs prec stats)))
       @ [json_member ''stddev'' (last (formatted signs prec stats)), ''}'']"
  by (simp add: json_lines_def json_keys_def formatted_def numeric_fields_def json_member_def
      upt_9)

text \<open>
  C7, as amended.  Both output modes print the count and then the same nine fields in the
  same order: sum, mean, median, min, max, range, q1, q3, stddev.  \<^verbatim>\<open>print_stats_text\<close>
  writes the header line and then nine labelled lines to the standard output;
  \<^verbatim>\<open>print_stats_json\<close> writes a member per field, with a comma after each but the last.
  The count is written as an integer; every other field is written by \<^verbatim>\<open>%.*f\<close> with the
  configured precision, which for a finite value gives the sign, at least one digit, and
  (unless the precision is 0) a decimal point followed by exactly as many digits as the
  precision says, and for an infinity or a NaN gives a word with no digits: \<^verbatim>\<open>inf\<close>,
  \<^verbatim>\<open>-inf\<close>, and \<^verbatim>\<open>nan\<close> or \<^verbatim>\<open>-nan\<close> as the sign bit of the NaN says.
\<close>

theorem output_fields_and_format:
  "print_stats_text signs stats prec out =
     printf (concat (map (\<lambda>l. l @ nl)
       ((''Statistics for '' @ show_nat (count_v stats) @ '' numbers:'')
          # map (\<lambda>(l, v). l @ v) (zip text_labels (formatted signs prec stats))))) out
   \<and> print_stats_json signs stats prec out =
     printf (concat (map (\<lambda>l. l @ nl)
       (''{'' # (json_member ''count'' (show_nat (count_v stats)) @ '','')
          # map (\<lambda>(k, v). json_member k v @ '','')
              (butlast (zip json_keys (formatted signs prec stats)))
          @ [json_member ''stddev'' (last (formatted signs prec stats)), ''}'']))) out
   \<and> formatted signs prec stats =
       map (\<lambda>(k, v). format_f (signs k) prec v) (zip [0..<9] (numeric_fields stats))
   \<and> length text_labels = 9 \<and> length json_keys = 9 \<and> length (numeric_fields stats) = 9
   \<and> set (show_nat (count_v stats)) \<subseteq> digits \<and> show_nat (count_v stats) \<noteq> []
   \<and> (0 \<le> prec \<longrightarrow>
        (\<exists>ip fr. format_f neg prec (Finite r) =
            (if r < 0 then ''-'' else []) @ ip @ (if prec = 0 then [] else CHR ''.'' # fr)
          \<and> ip \<noteq> [] \<and> set ip \<subseteq> digits \<and> length fr = nat prec \<and> set fr \<subseteq> digits)
      \<and> (\<exists>fr. format_f neg prec NegZero = ''-0'' @ (if prec = 0 then [] else CHR ''.'' # fr)
          \<and> length fr = nat prec \<and> set fr \<subseteq> digits))
   \<and> format_f neg prec PosInf = ''inf'' \<and> format_f neg prec NegInf = ''-inf''
   \<and> format_f neg prec NaN = (if neg then ''-nan'' else ''nan'')"
proof -
  have t: "print_stats_text signs stats prec out =
     printf (concat (map (\<lambda>l. l @ nl)
       ((''Statistics for '' @ show_nat (count_v stats) @ '' numbers:'')
          # map (\<lambda>(l, v). l @ v) (zip text_labels (formatted signs prec stats))))) out"
    by (simp only: print_stats_text_def text_lines_fields)
  have j: "print_stats_json signs stats prec out =
     printf (concat (map (\<lambda>l. l @ nl)
       (''{'' # (json_member ''count'' (show_nat (count_v stats)) @ '','')
          # map (\<lambda>(k, v). json_member k v @ '','')
              (butlast (zip json_keys (formatted signs prec stats)))
          @ [json_member ''stddev'' (last (formatted signs prec stats)), ''}'']))) out"
    by (simp only: print_stats_json_def json_lines_fields)
  have l: "length text_labels = 9" "length json_keys = 9" "length (numeric_fields stats) = 9"
    by (simp_all add: text_labels_def json_keys_def numeric_fields_def)
  have w: "format_f neg prec PosInf = ''inf''" "format_f neg prec NegInf = ''-inf''"
    "format_f neg prec NaN = (if neg then ''-nan'' else ''nan'')"
    by (simp_all add: format_f_def)
  from t j l w show_nat_digits [of "count_v stats"] format_f_finite [of prec neg r]
    format_f_NegZero [of prec neg] formatted_def [of signs prec stats]
  show ?thesis by blast
qed

theorem output_fields_and_format_witness:
  "(0::int) \<le> 4
   \<and> print_stats_text (\<lambda>k. False)
         \<lparr>count_v = 4, sum_v = Finite 10, mean = Finite (5 / 2), min_v = Finite 1,
           max_v = Finite 4, range_v = Finite 3, median = Finite (5 / 2),
           q1 = Finite (7 / 4), q3 = Finite (13 / 4), variance = Finite (5 / 4),
           stddev = Finite (629397181890197 / 562949953421312)\<rparr> 4 no_output =
       \<lparr>stdout = concat (map (\<lambda>l. l @ nl)
        [''Statistics for 4 numbers:'',
         ''  Sum:     10.0000'',
         ''  Mean:    2.5000'',
         ''  Median:  2.5000'',
         ''  Minimum: 1.0000'',
         ''  Maximum: 4.0000'',
         ''  Range:   3.0000'',
         ''  Q1:      1.7500'',
         ''  Q3:      3.2500'',
         ''  StdDev:  1.1180'']), stderr = []\<rparr>
   \<and> format_f False 4 (Finite (7 / 4)) = ''1'' @ CHR ''.'' # ''7500''"
proof -
  let ?S = "\<lparr>count_v = 4, sum_v = Finite 10, mean = Finite (5 / 2), min_v = Finite 1,
           max_v = Finite 4, range_v = Finite 3, median = Finite (5 / 2),
           q1 = Finite (7 / 4), q3 = Finite (13 / 4), variance = Finite (5 / 4),
           stddev = Finite (629397181890197 / 562949953421312)\<rparr>"
  from output_fields_and_format [of "\<lambda>k. False" ?S 4 no_output False "7 / 4"]
  have "print_stats_text (\<lambda>k. False) ?S 4 no_output =
     printf (concat (map (\<lambda>l. l @ nl)
       ((''Statistics for '' @ show_nat (count_v ?S) @ '' numbers:'')
          # map (\<lambda>(l, v). l @ v) (zip text_labels (formatted (\<lambda>k. False) 4 ?S))))) no_output"
    by blast
  moreover have "(''Statistics for '' @ show_nat (count_v ?S) @ '' numbers:'')
          # map (\<lambda>(l, v). l @ v) (zip text_labels (formatted (\<lambda>k. False) 4 ?S)) =
        [''Statistics for 4 numbers:'',
         ''  Sum:     10.0000'',
         ''  Mean:    2.5000'',
         ''  Median:  2.5000'',
         ''  Minimum: 1.0000'',
         ''  Maximum: 4.0000'',
         ''  Range:   3.0000'',
         ''  Q1:      1.7500'',
         ''  Q3:      3.2500'',
         ''  StdDev:  1.1180'']"
    by (simp add: text_labels_def formatted_def numeric_fields_def upt_9 fmt_eval)
  ultimately have "print_stats_text (\<lambda>k. False) ?S 4 no_output =
     printf (concat (map (\<lambda>l. l @ nl)
        [''Statistics for 4 numbers:'',
         ''  Sum:     10.0000'',
         ''  Mean:    2.5000'',
         ''  Median:  2.5000'',
         ''  Minimum: 1.0000'',
         ''  Maximum: 4.0000'',
         ''  Range:   3.0000'',
         ''  Q1:      1.7500'',
         ''  Q3:      3.2500'',
         ''  StdDev:  1.1180''])) no_output"
    by (simp only:)
  moreover have "format_f False 4 (Finite (7 / 4)) = ''1'' @ CHR ''.'' # ''7500''"
    by (simp add: fmt_eval)
  ultimately show ?thesis by (simp add: printf_def no_output_def)
qed

lemma rnd_pow2_1023: "rnd (2 ^ 1023) = Finite (2 ^ 1023)"
proof -
  have "\<bar>(2::real) ^ 1023\<bar> < overflow_threshold"
    using pow_less_overflow [of 1023] by (simp only: abs_of_pos zero_less_power zero_less_numeral)
  then show ?thesis
    by (intro rnd_exact [of _ 1 1023]) (simp_all only: power_int_numeral of_int_1 mult_1, simp_all)
qed


lemma rnd_pow2_1024: "rnd (2 ^ 1024) = PosInf"
proof -
  have "rval (2 ^ 1024) = 2 ^ 1024"
    by (intro rval_exact [of _ 1 1024]) (simp_all only: power_int_numeral of_int_1 mult_1, simp_all)
  then show ?thesis
    by (simp only: rnd_alt overflow_threshold_def) simp
qed

lemma sum_overflows:
  "foldl dadd (Finite 0) [Finite (2 ^ 1023), Finite (2 ^ 1023)] = PosInf"
proof -
  have a: "dadd (Finite 0) (Finite (2 ^ 1023)) = Finite (2 ^ 1023)"
    by (simp only: dadd.simps add_0 rnd_pow2_1023)
  have "(2::real) ^ 1023 + 2 ^ 1023 = 2 ^ 1024" by simp
  then have b: "dadd (Finite (2 ^ 1023)) (Finite (2 ^ 1023)) = PosInf"
    by (simp only: dadd.simps rnd_pow2_1024)
  show ?thesis by (simp only: foldl.simps a b)
qed

text \<open>
  C7, as stated, fails: \<^verbatim>\<open>print_stats_text\<close> writes ten lines, the header and nine
  labelled lines, not eight; and a field that is not finite is written with no digit
  after a decimal point, as the sum of the two finite numbers \<open>2^1023\<close> and \<open>2^1023\<close> is,
  and as every field is on the input \<^verbatim>\<open>inf\<close> (where the range \<^verbatim>\<open>inf - inf\<close> and the standard
  deviation are NaNs, here with the sign bit set).
\<close>

theorem eight_labelled_lines_counterexample:
  "stdout (print_stats_text (\<lambda>k. False)
         \<lparr>count_v = 4, sum_v = Finite 10, mean = Finite (5 / 2), min_v = Finite 1,
           max_v = Finite 4, range_v = Finite 3, median = Finite (5 / 2),
           q1 = Finite (7 / 4), q3 = Finite (13 / 4), variance = Finite (5 / 4),
           stddev = Finite (629397181890197 / 562949953421312)\<rparr> 4 no_output) =
      concat (map (\<lambda>l. l @ nl)
        [''Statistics for 4 numbers:'',
         ''  Sum:     10.0000'',
         ''  Mean:    2.5000'',
         ''  Median:  2.5000'',
         ''  Minimum: 1.0000'',
         ''  Maximum: 4.0000'',
         ''  Range:   3.0000'',
         ''  Q1:      1.7500'',
         ''  Q3:      3.2500'',
         ''  StdDev:  1.1180''])
   \<and> length (filter (\<lambda>c. c = CHR 0x0A) (stdout (print_stats_text (\<lambda>k. False)
         \<lparr>count_v = 4, sum_v = Finite 10, mean = Finite (5 / 2), min_v = Finite 1,
           max_v = Finite 4, range_v = Finite 3, median = Finite (5 / 2),
           q1 = Finite (7 / 4), q3 = Finite (13 / 4), variance = Finite (5 / 4),
           stddev = Finite (629397181890197 / 562949953421312)\<rparr> 4 no_output))) = 1 + 9
   \<and> map_option sum_v (calculate_stats [Finite (2 ^ 1023), Finite (2 ^ 1023)]) = Some PosInf
   \<and> format_f False 4 PosInf = ''inf''
   \<and> main [''numstat'']
        \<lparr>files = (\<lambda>name. None), stdin_stream = [Some PosInf], mem_limit = 4096,
         nan_sign = (\<lambda>k. True)\<rparr> =
       (Exit 0, \<lparr>stdout = concat (map (\<lambda>l. l @ nl)
          [''Statistics for 1 numbers:'',
           ''  Sum:     inf'',
           ''  Mean:    inf'',
           ''  Median:  inf'',
           ''  Minimum: inf'',
           ''  Maximum: inf'',
           ''  Range:   -nan'',
           ''  Q1:      inf'',
           ''  Q3:      inf'',
           ''  StdDev:  -nan'']), stderr = []\<rparr>)"
proof -
  have l: "length [Finite (2 ^ 1023), Finite (2 ^ 1023)] \<le> 2 ^ 61" by simp
  from calculate_stats_fields [OF refl l]
  have "map_option sum_v (calculate_stats [Finite (2 ^ 1023), Finite (2 ^ 1023)]) =
          Some (foldl dadd (Finite 0) [Finite (2 ^ 1023), Finite (2 ^ 1023)])"
    by auto
  then have "map_option sum_v (calculate_stats [Finite (2 ^ 1023), Finite (2 ^ 1023)]) = Some PosInf"
    by (simp only: sum_overflows)
  then have "map_option sum_v (calculate_stats [Finite (2 ^ 1023), Finite (2 ^ 1023)]) = Some PosInf
      \<and> format_f False 4 PosInf = ''inf''"
    by (simp add: format_f_def)
  moreover have "stdout (print_stats_text (\<lambda>k. False)
         \<lparr>count_v = 4, sum_v = Finite 10, mean = Finite (5 / 2), min_v = Finite 1,
           max_v = Finite 4, range_v = Finite 3, median = Finite (5 / 2),
           q1 = Finite (7 / 4), q3 = Finite (13 / 4), variance = Finite (5 / 4),
           stddev = Finite (629397181890197 / 562949953421312)\<rparr> 4 no_output) =
      concat (map (\<lambda>l. l @ nl)
        [''Statistics for 4 numbers:'',
         ''  Sum:     10.0000'',
         ''  Mean:    2.5000'',
         ''  Median:  2.5000'',
         ''  Minimum: 1.0000'',
         ''  Maximum: 4.0000'',
         ''  Range:   3.0000'',
         ''  Q1:      1.7500'',
         ''  Q3:      3.2500'',
         ''  StdDev:  1.1180''])"
    by (simp add: print_stats_text_def printf_def no_output_def text_1234)
  moreover from this have "length (filter (\<lambda>c. c = CHR 0x0A) (stdout (print_stats_text (\<lambda>k. False)
         \<lparr>count_v = 4, sum_v = Finite 10, mean = Finite (5 / 2), min_v = Finite 1,
           max_v = Finite 4, range_v = Finite 3, median = Finite (5 / 2),
           q1 = Finite (7 / 4), q3 = Finite (13 / 4), variance = Finite (5 / 4),
           stddev = Finite (629397181890197 / 562949953421312)\<rparr> 4 no_output))) = 1 + 9"
    by (simp add: nl_def)
  ultimately show ?thesis
    using main_inf by (simp only: simp_thms)
qed

subsection \<open>Signs and the grid of the doubles\<close>

text \<open>A number at least as large as the smallest positive double does not round to zero.\<close>

lemma sig_pos:
  assumes "2 powi (- 1074) \<le> x"
  shows "1 \<le> sig x"
proof -
  have x: "0 < x" using assms two_powi_pos [of "- 1074"] by linarith
  define e where "e = ulp_exp x"
  have "2 powi e \<le> x"
  proof (cases "- 1022 \<le> ilog2 x")
    case True
    then have "e = ilog2 x - 52" using x by (simp add: e_def ulp_exp_def)
    then have "(2::real) powi e \<le> 2 powi ilog2 x" by simp
    with ilog2_bounds(1) [OF x] show ?thesis by linarith
  next
    case False
    then have "e = - 1074" using x by (simp add: e_def ulp_exp_def)
    with assms show ?thesis by simp
  qed
  then have "of_int 1 \<le> x / 2 powi e" by (simp add: le_divide_eq)
  then show ?thesis unfolding sig_def e_def [symmetric] by (rule round_half_even_ge_int)
qed

lemma rval_pos:
  assumes "2 powi (- 1074) \<le> x"
  shows "0 < rval x"
  using sig_pos [OF assms] by (simp add: rval_def)

lemma round_half_even_uminus: "round_half_even (- x) = - round_half_even x"
proof (cases "x = of_int \<lfloor>x\<rfloor>")
  case True
  then obtain n where "x = of_int n" ..
  then have "- x = of_int (- n)" by simp
  then show ?thesis unfolding \<open>x = of_int n\<close> by (simp only: round_half_even_of_int)
next
  case False
  define f where "f = \<lfloor>x\<rfloor>"
  define d where "d = x - of_int f"
  have d: "0 < d" "d < 1" using False unfolding d_def f_def by linarith+
  have "of_int (- f - 1) \<le> - x" "- x < of_int (- f - 1) + 1"
    using d unfolding d_def by simp_all
  then have fl: "\<lfloor>- x\<rfloor> = - f - 1" by (rule floor_unique)
  have dd: "- x - of_int (- f - 1) = 1 - d" by (simp add: d_def)
  have ev: "even (- f - 1) \<longleftrightarrow> odd f" by simp
  show ?thesis
    unfolding round_half_even_def Let_def fl dd ev f_def [symmetric] d_def [symmetric]
    using d by auto
qed

lemma ulp_exp_uminus [simp]: "ulp_exp (- x) = ulp_exp x"
  by (simp add: ulp_exp_def)

lemma sig_uminus [simp]: "sig (- x) = - sig x"
  by (simp add: sig_def round_half_even_uminus)

lemma rval_uminus [simp]: "rval (- x) = - rval x"
  by (simp add: rval_def)

lemma rval_neg:
  assumes "x \<le> - (2 powi (- 1074))"
  shows "rval x < 0"
  using rval_pos [of "- x"] assms by simp

text \<open>
  Every double is a multiple of \<open>2^-1074\<close>, and so is the difference of two doubles: it
  is zero or does not round to zero.
\<close>

lemma on_grid_diff: "on_grid a \<Longrightarrow> on_grid b \<Longrightarrow> on_grid (a - b)"
  unfolding on_grid_def
proof (elim exE)
  fix k l :: int
  assume "a = of_int k * 2 powi (- 1074)" "b = of_int l * 2 powi (- 1074)"
  then have "a - b = of_int (k - l) * 2 powi (- 1074)" by (simp add: algebra_simps)
  then show "\<exists>k::int. a - b = of_int k * 2 powi (- 1074)" ..
qed

lemma on_grid_uminus: "on_grid a \<Longrightarrow> on_grid (- a)"
  using on_grid_diff [of 0 a] by (simp add: on_grid_def)

lemma on_grid_pos:
  assumes "on_grid x" "0 < x"
  shows "2 powi (- 1074) \<le> x"
proof -
  from assms(1) obtain k :: int where k: "x = of_int k * 2 powi (- 1074)"
    unfolding on_grid_def ..
  with assms(2) have "0 < real_of_int k" by (simp add: zero_less_mult_iff)
  then have "1 \<le> real_of_int k" by simp
  then have "1 * 2 powi (- 1074) \<le> real_of_int k * 2 powi (- 1074)"
    by (intro mult_right_mono) simp_all
  then show ?thesis by (simp add: k)
qed

lemma rval_on_grid: "on_grid (rval x)"
proof -
  define e where "e = ulp_exp x"
  have "0 \<le> e + 1074" using ulp_exp_ge [of x] by (simp add: e_def)
  from powi_nat [OF this]
  have "(2::real) powi e = of_int (2 ^ nat (e + 1074)) * 2 powi (- 1074)"
    using powi_add [of "e + 1074" "- 1074"] by simp
  then have "rval x = of_int (sig x * 2 ^ nat (e + 1074)) * 2 powi (- 1074)"
    by (simp add: rval_def e_def [symmetric])
  then show ?thesis unfolding on_grid_def ..
qed

lemma is_double_on_grid:
  assumes "rnd r = Finite r"
  shows "on_grid r"
proof (cases "r = 0")
  case True
  then show ?thesis by (simp add: on_grid_def)
next
  case False
  with assms have "rval r = r" by (auto simp: rnd_alt split: if_splits)
  with rval_on_grid [of r] show ?thesis by simp
qed

text \<open>The sign of a rounded difference of doubles is the sign of the difference.\<close>

lemma rnd_grid_pos:
  assumes "on_grid x" "0 < x"
  shows "rnd x = PosInf \<or> (\<exists>y. rnd x = Finite y \<and> 0 < y)"
  using rval_pos [OF on_grid_pos [OF assms]] assms(2) by (auto simp: rnd_alt)

lemma rnd_grid_neg:
  assumes "on_grid x" "x < 0"
  shows "rnd x = NegInf \<or> (\<exists>y. rnd x = Finite y \<and> y < 0)"
proof -
  have "2 powi (- 1074) \<le> - x"
    using on_grid_pos [OF on_grid_uminus [OF assms(1)]] assms(2) by simp
  then have "rval x < 0" by (intro rval_neg) simp
  then show ?thesis using assms(2) by (auto simp: rnd_alt)
qed

subsection \<open>The comparison function and the order\<close>

lemma dsub_Finite_sign:
  assumes "rnd x = Finite x" "rnd y = Finite y"
  shows "dgt (dsub (Finite x) (Finite y)) (Finite 0) \<longleftrightarrow> y < x"
    and "dlt (dsub (Finite x) (Finite y)) (Finite 0) \<longleftrightarrow> x < y"
proof -
  have g: "on_grid (x - y)"
    using assms by (intro on_grid_diff is_double_on_grid)
  have d: "dsub (Finite x) (Finite y) = (if y = 0 then Finite x else rnd (x - y))"
    by (simp add: dsub_def)
  consider "y = 0" | "y \<noteq> 0" "x - y = 0" | "y \<noteq> 0" "0 < x - y" | "y \<noteq> 0" "x - y < 0"
    by linarith
  then have "(dgt (dsub (Finite x) (Finite y)) (Finite 0) \<longleftrightarrow> y < x)
           \<and> (dlt (dsub (Finite x) (Finite y)) (Finite 0) \<longleftrightarrow> x < y)"
  proof cases
    case 1
    then show ?thesis unfolding d by (simp add: dgt_def dlt_def)
  next
    case 2
    then show ?thesis unfolding d by (simp add: dgt_def dlt_def rnd_alt)
  next
    case 3
    with rnd_grid_pos [OF g] show ?thesis unfolding d by (auto simp: dgt_def dlt_def)
  next
    case 4
    with rnd_grid_neg [OF g] show ?thesis unfolding d by (auto simp: dgt_def dlt_def)
  qed
  then show "dgt (dsub (Finite x) (Finite y)) (Finite 0) \<longleftrightarrow> y < x"
    and "dlt (dsub (Finite x) (Finite y)) (Finite 0) \<longleftrightarrow> x < y" by simp_all
qed

lemma compare_double_le_iff:
  assumes "is_double a" "is_double b" "a \<noteq> NaN" "b \<noteq> NaN"
  shows "compare_double a b \<le> 0 \<longleftrightarrow> key a \<le> key b"
proof (cases a)
  case fa: (Finite x)
  with assms have rx: "rnd x = Finite x" by (simp add: is_double_def)
  show ?thesis
  proof (cases b)
    case (Finite y)
    with fa assms have r: "rnd x = Finite x" "rnd y = Finite y" by (simp_all add: is_double_def)
    show ?thesis
      using dsub_Finite_sign [OF r] by (auto simp: fa Finite compare_double_def Let_def)
  next
    case NegZero
    then show ?thesis using rx by (auto simp: fa compare_double_def dsub_def dgt_def dlt_def)
  next
    case PosInf
    then show ?thesis by (auto simp: fa compare_double_def dsub_def dgt_def dlt_def)
  next
    case NegInf
    then show ?thesis by (auto simp: fa compare_double_def dsub_def dgt_def dlt_def)
  next
    case NaN
    with assms show ?thesis by simp
  qed
next
  case NegZero
  show ?thesis
  proof (cases b)
    case (Finite y)
    have "dsub NegZero (Finite y) = (if y = 0 then NegZero else Finite (- y))"
      by (simp add: dsub_def)
    then show ?thesis by (auto simp: NegZero Finite compare_double_def dgt_def dlt_def)
  qed (use assms in \<open>auto simp: NegZero compare_double_def dsub_def dgt_def dlt_def\<close>)
next
  case PosInf
  then show ?thesis using assms
    by (cases b) (auto simp: compare_double_def dsub_def dgt_def dlt_def)
next
  case NegInf
  then show ?thesis using assms
    by (cases b) (auto simp: compare_double_def dsub_def dgt_def dlt_def)
next
  case NaN
  with assms show ?thesis by simp
qed

subsection \<open>Sorted arrays\<close>

lemma mset_insert_by [simp]: "mset (insert_by cmp x ys) = add_mset x (mset ys)"
  by (induction ys) simp_all

lemma mset_qsort [simp]: "mset (qsort cmp xs) = mset xs"
  by (induction xs) (simp_all add: qsort_def)

lemma set_insert_by [simp]: "set (insert_by cmp x ys) = insert x (set ys)"
  by (induction ys) auto

lemma set_qsort [simp]: "set (qsort cmp xs) = set xs"
  by (induction xs) (simp_all add: qsort_def)

lemma clean_qsort [simp]: "clean (qsort cmp xs) = clean xs"
  by (simp add: clean_def)

lemma sorted_insert_by:
  assumes "clean (x # ys)" "sorted (map key ys)"
  shows "sorted (map key (insert_by compare_double x ys))"
  using assms
proof (induction ys)
  case Nil
  show ?case by simp
next
  case (Cons y ys)
  have c: "compare_double x y \<le> 0 \<longleftrightarrow> key x \<le> key y"
    using Cons.prems(1) by (intro compare_double_le_iff) (simp_all add: clean_def)
  show ?case
  proof (cases "compare_double x y \<le> 0")
    case True
    then show ?thesis using Cons.prems(2) c by auto
  next
    case False
    have "sorted (map key (insert_by compare_double x ys))"
      using Cons.prems by (intro Cons.IH) (simp_all add: clean_def)
    then show ?thesis using False c Cons.prems(2) by auto
  qed
qed

lemma sorted_qsort:
  assumes "clean xs"
  shows "sorted (map key (qsort compare_double xs))"
  using assms
proof (induction xs)
  case Nil
  show ?case by (simp add: qsort_def)
next
  case (Cons x xs)
  have "clean (x # qsort compare_double xs)" using Cons.prems by (simp add: clean_def)
  moreover have "sorted (map key (qsort compare_double xs))"
    using Cons.prems by (intro Cons.IH) (simp add: clean_def)
  ultimately have "sorted (map key (insert_by compare_double x (qsort compare_double xs)))"
    by (rule sorted_insert_by)
  then show ?case by (simp add: qsort_def)
qed

text \<open>The sorted array of a permutation has the same keys at the same places.\<close>

lemma qsort_keys:
  assumes "clean xs"
  shows "map key (qsort compare_double xs) = sort (map key xs)"
proof -
  have "mset (map key (qsort compare_double xs)) = mset (map key xs)" by simp
  from properties_for_sort [OF this sorted_qsort [OF assms]] show ?thesis by simp
qed

lemma qsort_permutation_keys:
  assumes "clean xs" "mset xs = mset ys"
  shows "map key (qsort compare_double xs) = map key (qsort compare_double ys)"
proof -
  have "clean ys" using assms by (metis clean_def set_mset_mset)
  moreover have "mset (map key xs) = mset (map key ys)" using assms(2) by simp
  then have "sort (map key xs) = sort (map key ys)"
    by (intro properties_for_sort) simp_all
  ultimately show ?thesis using assms(1) by (simp add: qsort_keys)
qed

lemma key_eq_same_value:
  assumes "key x = key y" "x \<noteq> NaN" "y \<noteq> NaN"
  shows "same_value x y"
  using assms by (cases x; cases y) (simp_all add: same_value_def is_zero_def)

lemma same_value_key: "same_value x y \<Longrightarrow> key x = key y"
  by (auto simp: same_value_def is_zero_def)

subsection \<open>Minimum and maximum as the least and the greatest key\<close>

lemma key_min_step:
  assumes "v \<noteq> NaN" "m \<noteq> NaN"
  shows "key (if dlt v m then v else m) = min (key v) (key m)"
  using assms by (auto simp: dlt_def min_def)

lemma key_max_step:
  assumes "v \<noteq> NaN" "m \<noteq> NaN"
  shows "key (if dgt v m then v else m) = max (key v) (key m)"
  using assms by (auto simp: dgt_def dlt_def max_def)

lemma foldl_min_key:
  assumes "m \<noteq> NaN" "\<forall>v\<in>set vs. v \<noteq> NaN"
  shows "key (foldl (\<lambda>m v. if dlt v m then v else m) m vs) = fold min (map key vs) (key m)
       \<and> foldl (\<lambda>m v. if dlt v m then v else m) m vs \<noteq> NaN"
  using assms
proof (induction vs arbitrary: m)
  case Nil
  then show ?case by simp
next
  case (Cons v vs)
  have "(if dlt v m then v else m) \<noteq> NaN" using Cons.prems by simp
  from Cons.IH [OF this] Cons.prems show ?case
    by (simp add: key_min_step)
qed

lemma foldl_max_key:
  assumes "m \<noteq> NaN" "\<forall>v\<in>set vs. v \<noteq> NaN"
  shows "key (foldl (\<lambda>m v. if dgt v m then v else m) m vs) = fold max (map key vs) (key m)
       \<and> foldl (\<lambda>m v. if dgt v m then v else m) m vs \<noteq> NaN"
  using assms
proof (induction vs arbitrary: m)
  case Nil
  then show ?case by simp
next
  case (Cons v vs)
  have "(if dgt v m then v else m) \<noteq> NaN" using Cons.prems by simp
  from Cons.IH [OF this] Cons.prems show ?case
    by (simp add: key_max_step)
qed

lemma min_key:
  assumes "\<forall>v\<in>set (v0 # rest). v \<noteq> NaN"
  shows "key (foldl (\<lambda>m v. if dlt v m then v else m) v0 (v0 # rest)) = Min (key ` set (v0 # rest))"
    and "foldl (\<lambda>m v. if dlt v m then v else m) v0 (v0 # rest) \<noteq> NaN"
proof -
  have n: "foldl (\<lambda>m v. if dlt v m then v else m) v0 rest \<noteq> NaN"
    using foldl_min_key [of v0 rest] assms by simp
  have "key (foldl (\<lambda>m v. if dlt v m then v else m) v0 rest) = fold min (map key rest) (key v0)"
    using foldl_min_key [of v0 rest] assms by simp
  also have "fold min (map key rest) (key v0) = Min (set (key v0 # map key rest))"
    by (simp only: Min.set_eq_fold)
  finally show "key (foldl (\<lambda>m v. if dlt v m then v else m) v0 (v0 # rest)) = Min (key ` set (v0 # rest))"
    by simp
  show "foldl (\<lambda>m v. if dlt v m then v else m) v0 (v0 # rest) \<noteq> NaN" using n by simp
qed

lemma max_key:
  assumes "\<forall>v\<in>set (v0 # rest). v \<noteq> NaN"
  shows "key (foldl (\<lambda>m v. if dgt v m then v else m) v0 (v0 # rest)) = Max (key ` set (v0 # rest))"
    and "foldl (\<lambda>m v. if dgt v m then v else m) v0 (v0 # rest) \<noteq> NaN"
proof -
  have n: "foldl (\<lambda>m v. if dgt v m then v else m) v0 rest \<noteq> NaN"
    using foldl_max_key [of v0 rest] assms by simp
  have "key (foldl (\<lambda>m v. if dgt v m then v else m) v0 rest) = fold max (map key rest) (key v0)"
    using foldl_max_key [of v0 rest] assms by simp
  also have "fold max (map key rest) (key v0) = Max (set (key v0 # map key rest))"
    by (simp only: Max.set_eq_fold)
  finally show "key (foldl (\<lambda>m v. if dgt v m then v else m) v0 (v0 # rest)) = Max (key ` set (v0 # rest))"
    by simp
  show "foldl (\<lambda>m v. if dgt v m then v else m) v0 (v0 # rest) \<noteq> NaN" using n by simp
qed

subsection \<open>Results of operations are doubles\<close>

lemma sig_bound:
  assumes "x \<noteq> 0"
  shows "\<bar>sig x\<bar> \<le> 2 ^ 53"
proof -
  define e where "e = ulp_exp x"
  have ax: "0 < \<bar>x\<bar>" using assms by simp
  have "ilog2 \<bar>x\<bar> - 52 \<le> e" by (simp add: e_def ulp_exp_def)
  then have "(2::real) powi (ilog2 \<bar>x\<bar> + 1) \<le> 2 powi (e + 53)" by simp
  with ilog2_bounds(2) [OF ax] have "\<bar>x\<bar> < 2 powi (e + 53)" by linarith
  then have "\<bar>x\<bar> < 2 powi e * 2 ^ 53" by (simp add: powi_add)
  then have a: "\<bar>x\<bar> / 2 powi e < 2 ^ 53" by (simp add: divide_less_eq mult.commute)
  define q where "q = x / 2 powi e"
  have "\<bar>q\<bar> = \<bar>x\<bar> / 2 powi e" by (simp add: q_def abs_divide)
  with a have "q \<le> 2 ^ 53" "- (2 ^ 53) \<le> q" by linarith+
  then have b: "q \<le> of_int (2 ^ 53)" "of_int (- (2 ^ 53)) \<le> q" by simp_all
  have "sig x \<le> 2 ^ 53"
    unfolding sig_def e_def [symmetric] q_def [symmetric] using b(1) by (rule round_half_even_le_int)
  moreover have "- (2 ^ 53) \<le> sig x"
    unfolding sig_def e_def [symmetric] q_def [symmetric] using b(2) by (rule round_half_even_ge_int)
  ultimately show ?thesis by simp
qed

lemma rval_idem:
  assumes "x \<noteq> 0" "rval x \<noteq> 0" "\<bar>rval x\<bar> < overflow_threshold"
  shows "rnd (rval x) = Finite (rval x)"
proof (cases "\<bar>sig x\<bar> < 2 ^ 53")
  case True
  show ?thesis
    using True ulp_exp_ge [of x] assms(3)
    by (intro rnd_exact [of _ "sig x" "ulp_exp x"]) (simp_all add: rval_def)
next
  case False
  with sig_bound [OF assms(1)] have "\<bar>sig x\<bar> = 2 ^ 53" by simp
  then consider "sig x = 2 ^ 53" | "sig x = - (2 ^ 53)" by linarith
  then obtain s :: int where s: "\<bar>s\<bar> = 1" "sig x = s * 2 ^ 53"
    by cases (auto intro: that [of 1] that [of "- 1"])
  have "rval x = of_int s * (2 ^ 53 * 2 powi ulp_exp x)" by (simp add: rval_def s(2))
  also have "2 ^ 53 * 2 powi ulp_exp x = (2::real) powi (ulp_exp x + 53)"
    by (simp add: powi_add)
  finally have r: "rval x = of_int s * 2 powi (ulp_exp x + 53)" .
  show ?thesis
    using s(1) ulp_exp_ge [of x] assms(3)
    by (intro rnd_exact [of _ s "ulp_exp x + 53"]) (simp_all add: r)
qed

lemma rnd_idem:
  assumes "rnd x = Finite y"
  shows "rnd y = Finite y"
proof (cases "x = 0 \<or> y = 0")
  case True
  with assms show ?thesis by (auto simp: rnd_alt)
next
  case False
  with assms have "y = rval x" "\<bar>rval x\<bar> < overflow_threshold"
    by (auto simp: rnd_alt split: if_splits)
  with rval_idem [of x] False show ?thesis by simp
qed

lemma is_double_rnd [simp]: "is_double (rnd x)"
  by (cases "rnd x") (simp_all add: is_double_def rnd_idem)

lemma is_double_simps [simp]:
  "is_double NegZero" "is_double PosInf" "is_double NegInf" "is_double NaN"
  "is_double (Finite 0)" "is_double (signed_zero s)" "is_double (signed_inf s)"
  by (simp_all add: is_double_def signed_zero_def signed_inf_def rnd_alt)

lemma is_double_dmul [simp]: "is_double (dmul x y)"
  by (simp add: dmul_def)

lemma rnd_uminus_exact:
  assumes "rnd r = Finite r"
  shows "rnd (- r) = Finite (- r)"
proof (cases "r = 0")
  case True
  then show ?thesis by (simp add: rnd_alt)
next
  case False
  with assms have "rval r = r" "\<bar>r\<bar> < overflow_threshold"
    by (auto simp: rnd_alt split: if_splits)
  then show ?thesis using False by (simp add: rnd_alt)
qed

lemma rnd_zero [simp]: "rnd 0 = Finite 0"
  by (simp add: rnd_alt)

lemma is_double_dneg [simp]: "is_double x \<Longrightarrow> is_double (dneg x)"
  by (cases x) (simp_all add: is_double_def rnd_uminus_exact)

lemma is_double_dadd [simp]: "is_double x \<Longrightarrow> is_double y \<Longrightarrow> is_double (dadd x y)"
  by (cases x; cases y) simp_all

lemma is_double_dsub [simp]: "is_double x \<Longrightarrow> is_double y \<Longrightarrow> is_double (dsub x y)"
  by (simp add: dsub_def)

subsection \<open>The sign of a zero does not spread\<close>

lemma same_value_refl [simp]: "same_value x x"
  by (simp add: same_value_def)

lemma same_value_sym: "same_value x y \<Longrightarrow> same_value y x"
  by (auto simp: same_value_def)

lemma same_value_trans: "same_value x y \<Longrightarrow> same_value y z \<Longrightarrow> same_value x z"
  by (auto simp: same_value_def)

lemma same_value_zero [simp]: "is_zero x \<Longrightarrow> is_zero y \<Longrightarrow> same_value x y"
  by (simp add: same_value_def)

lemma is_zero_signed_zero [simp]: "is_zero (signed_zero s)"
  by (simp add: is_zero_def signed_zero_def)

lemma dadd_zero_left:
  assumes "is_zero a" "is_zero a'" "is_double b"
  shows "same_value (dadd a b) (dadd a' b)"
proof (cases b)
  case (Finite y)
  with assms(3) have "rnd y = Finite y" by (simp add: is_double_def)
  then show ?thesis using assms(1,2) by (auto simp: Finite is_zero_def)
qed (use assms(1,2) in \<open>auto simp: is_zero_def\<close>)

lemma dadd_zero_right:
  assumes "is_zero b" "is_zero b'" "is_double a"
  shows "same_value (dadd a b) (dadd a b')"
proof (cases a)
  case (Finite x)
  with assms(3) have "rnd x = Finite x" by (simp add: is_double_def)
  then show ?thesis using assms(1,2) by (auto simp: Finite is_zero_def)
qed (use assms(1,2) in \<open>auto simp: is_zero_def\<close>)

lemma dadd_cong:
  assumes "same_value a a'" "same_value b b'" "is_double a'" "is_double b"
  shows "same_value (dadd a b) (dadd a' b')"
proof -
  have "same_value (dadd a b) (dadd a' b)"
    using assms(1,4) dadd_zero_left [of a a' b] by (auto simp: same_value_def)
  moreover have "same_value (dadd a' b) (dadd a' b')"
    using assms(2,3) dadd_zero_right [of b b' a'] by (auto simp: same_value_def)
  ultimately show ?thesis by (rule same_value_trans)
qed

lemma dneg_cong: "same_value a a' \<Longrightarrow> same_value (dneg a) (dneg a')"
  by (auto simp: same_value_def is_zero_def)

lemma dsub_cong:
  assumes "same_value a a'" "same_value b b'" "is_double a'" "is_double b"
  shows "same_value (dsub a b) (dsub a' b')"
  unfolding dsub_def using assms by (intro dadd_cong dneg_cong is_double_dneg)

lemma dmul_cong_left:
  assumes "same_value a a'"
  shows "same_value (dmul a w) (dmul a' w)"
proof (cases "a = a'")
  case True
  then show ?thesis by simp
next
  case False
  with assms have z: "is_zero a" "is_zero a'" by (simp_all add: same_value_def)
  then have "a \<noteq> NaN" "a' \<noteq> NaN" "\<not> is_inf a" "\<not> is_inf a'"
    by (auto simp: is_zero_def is_inf_def)
  then show ?thesis using z by (simp add: dmul_def)
qed

lemma get_percentile_small:
  "length s = 0 \<Longrightarrow> get_percentile s p = Some (Finite 0)"
  "length s = 1 \<Longrightarrow> get_percentile s p = Some (s ! 0)"
  by (simp_all add: get_percentile_def)

lemma get_percentile_large:
  assumes "2 \<le> length s"
  shows "get_percentile s p = pick s (dmul p (double_of_nat (length s - 1)))"
proof -
  have "length s = 0 \<longleftrightarrow> False" "length s = 1 \<longleftrightarrow> False" using assms by auto
  then show ?thesis
    unfolding get_percentile_def pick_def interpolate_def Let_def by (simp only: if_False)
qed

lemma interpolate_cong:
  assumes "same_value (s ! lower) (s' ! lower)" "same_value (s ! (lower + 1)) (s' ! (lower + 1))"
  shows "same_value (interpolate s lower w) (interpolate s' lower w)"
  unfolding interpolate_def using assms
  by (intro dadd_cong dmul_cong_left is_double_dmul)

lemma pick_cong:
  assumes "length s = length s'" "\<forall>i<length s. same_value (s ! i) (s' ! i)" "2 \<le> length s"
  shows "rel_option same_value (pick s index) (pick s' index)"
proof (cases "size_t_of_double index")
  case None
  then show ?thesis by (simp add: pick_def)
next
  case (Some lower)
  show ?thesis
  proof (cases "lower + 1 \<ge> length s")
    case True
    have "same_value (s ! (length s - 1)) (s' ! (length s - 1))"
      using assms(2,3) by simp
    then show ?thesis using True Some assms(1) by (simp add: pick_def)
  next
    case False
    then have "same_value (interpolate s lower (dsub index (double_of_nat lower)))
                 (interpolate s' lower (dsub index (double_of_nat lower)))"
      using assms(2) by (intro interpolate_cong) simp_all
    then show ?thesis using False Some assms(1) by (simp add: pick_def)
  qed
qed

lemma get_percentile_cong:
  assumes "length s = length s'" "\<forall>i<length s. same_value (s ! i) (s' ! i)"
  shows "rel_option same_value (get_percentile s p) (get_percentile s' p)"
proof -
  consider "length s = 0" | "length s = 1" | "2 \<le> length s" by linarith
  then show ?thesis
  proof cases
    case 1
    then show ?thesis using assms(1) by (simp add: get_percentile_small)
  next
    case 2
    then have "same_value (s ! 0) (s' ! 0)" using assms(2) by simp
    then show ?thesis using 2 assms(1) by (simp add: get_percentile_small)
  next
    case 3
    then have "2 \<le> length s'" using assms(1) by simp
    then show ?thesis
      using pick_cong [OF assms 3, of "dmul p (double_of_nat (length s - 1))"] 3 assms(1)
      by (simp add: get_percentile_large)
  qed
qed

lemma same_keys_pointwise:
  assumes "map key s = map key s'" "\<forall>x\<in>set s. x \<noteq> NaN" "\<forall>x\<in>set s'. x \<noteq> NaN"
  shows "length s = length s'" and "\<forall>i<length s. same_value (s ! i) (s' ! i)"
proof -
  show l: "length s = length s'" using assms(1) by (rule map_eq_imp_length_eq)
  show "\<forall>i<length s. same_value (s ! i) (s' ! i)"
  proof (intro allI impI)
    fix i assume i: "i < length s"
    then have "key (s ! i) = key (s' ! i)"
      using assms(1) l by (metis nth_map)
    moreover have "s ! i \<noteq> NaN" "s' ! i \<noteq> NaN"
      using assms(2,3) i l by (simp_all)
    ultimately show "same_value (s ! i) (s' ! i)" by (rule key_eq_same_value)
  qed
qed

lemma foldl_pick_mem:
  "foldl (\<lambda>m v. if c v m then v else m) m vs \<in> set (m # vs)"
proof (induction vs arbitrary: m)
  case Nil
  show ?case by simp
next
  case (Cons v vs)
  from Cons.IH [of "if c v m then v else m"] show ?case by (auto split: if_splits)
qed

lemma calculate_stats_some:
  assumes "vals = v0 # rest" "length vals \<le> 2 ^ 61"
  obtains s where "calculate_stats vals = Some s" "count_v s = length vals"
    "min_v s = foldl (\<lambda>m v. if dlt v m then v else m) v0 vals"
    "max_v s = foldl (\<lambda>m v. if dgt v m then v else m) v0 vals"
    "range_v s = dsub (max_v s) (min_v s)"
    "get_percentile (qsort compare_double vals) (Finite (1 / 2)) = Some (median s)"
    "get_percentile (qsort compare_double vals) (Finite (1 / 4)) = Some (q1 s)"
    "get_percentile (qsort compare_double vals) (Finite (3 / 4)) = Some (q3 s)"
    "sum_v s = foldl dadd (Finite 0) vals"
    "mean s = ddiv (sum_v s) (double_of_nat (length vals))"
    "variance s = ddiv (sum_sq_dev vals (mean s)) (double_of_nat (length vals))"
proof -
  from calculate_stats_fields [OF assms] obtain md p25 p75 where
    f: "calculate_stats vals =
       Some \<lparr>count_v = length vals,
             sum_v = foldl dadd (Finite 0) vals,
             mean = ddiv (foldl dadd (Finite 0) vals) (double_of_nat (length vals)),
             min_v = foldl (\<lambda>m v. if dlt v m then v else m) v0 vals,
             max_v = foldl (\<lambda>m v. if dgt v m then v else m) v0 vals,
             range_v = dsub (foldl (\<lambda>m v. if dgt v m then v else m) v0 vals)
                            (foldl (\<lambda>m v. if dlt v m then v else m) v0 vals),
             median = md, q1 = p25, q3 = p75,
             variance = ddiv (sum_sq_dev vals
                                (ddiv (foldl dadd (Finite 0) vals) (double_of_nat (length vals))))
                          (double_of_nat (length vals)),
             stddev = dsqrt (ddiv (sum_sq_dev vals
                                (ddiv (foldl dadd (Finite 0) vals) (double_of_nat (length vals))))
                          (double_of_nat (length vals)))\<rparr>"
     "get_percentile (qsort compare_double vals) (Finite (1 / 2)) = Some md"
     "get_percentile (qsort compare_double vals) (Finite (1 / 4)) = Some p25"
     "get_percentile (qsort compare_double vals) (Finite (3 / 4)) = Some p75"
    by blast
  show thesis
    by (rule that [OF f(1)]) (simp_all add: f(2-))
qed

text \<open>
  C4, as amended.  For an array of doubles with no NaN and a permutation of it,
  \<^verbatim>\<open>calculate_stats\<close> gives the same count, and for each of the minimum, the maximum, the
  range, the median and the two quartiles the same double up to the sign of a zero: the
  two results are one and the same double (a NaN for both orders, when it is one), or
  they are two zeros.  Nothing is said of the sum, the mean, the variance and the
  standard deviation.
\<close>

theorem permutation_invariant_fields:
  assumes "mset xs = mset ys" and "xs \<noteq> []" and "clean xs" and "length xs \<le> 2 ^ 61"
  shows "\<exists>s t. calculate_stats xs = Some s \<and> calculate_stats ys = Some t
       \<and> count_v s = count_v t
       \<and> same_value (min_v s) (min_v t) \<and> same_value (max_v s) (max_v t)
       \<and> same_value (range_v s) (range_v t)
       \<and> same_value (median s) (median t)
       \<and> same_value (q1 s) (q1 t) \<and> same_value (q3 s) (q3 t)"
proof -
  have len: "length ys = length xs" using assms(1) by (metis mset_eq_length)
  have st: "set ys = set xs" using assms(1) by (metis mset_eq_setD)
  have cy: "clean ys" using assms(3) st by (simp add: clean_def)
  obtain v0 rest where xs: "xs = v0 # rest" using assms(2) by (cases xs) auto
  obtain w0 rest' where ys: "ys = w0 # rest'" using len assms(2) by (cases ys) auto
  have nx: "\<forall>v\<in>set (v0 # rest). v \<noteq> NaN" and ny: "\<forall>v\<in>set (w0 # rest'). v \<noteq> NaN"
    using assms(3) cy by (simp_all add: clean_def xs ys)
  obtain s where
    s: "calculate_stats xs = Some s" "count_v s = length xs"
      "min_v s = foldl (\<lambda>m v. if dlt v m then v else m) v0 xs"
      "max_v s = foldl (\<lambda>m v. if dgt v m then v else m) v0 xs"
      "range_v s = dsub (max_v s) (min_v s)"
      "get_percentile (qsort compare_double xs) (Finite (1 / 2)) = Some (median s)"
      "get_percentile (qsort compare_double xs) (Finite (1 / 4)) = Some (q1 s)"
      "get_percentile (qsort compare_double xs) (Finite (3 / 4)) = Some (q3 s)"
      "sum_v s = foldl dadd (Finite 0) xs"
      "mean s = ddiv (sum_v s) (double_of_nat (length xs))"
      "variance s = ddiv (sum_sq_dev xs (mean s)) (double_of_nat (length xs))"
    by (rule calculate_stats_some [OF xs assms(4)])
  have "length ys \<le> 2 ^ 61" using len assms(4) by simp
  then obtain t where
    t: "calculate_stats ys = Some t" "count_v t = length ys"
      "min_v t = foldl (\<lambda>m v. if dlt v m then v else m) w0 ys"
      "max_v t = foldl (\<lambda>m v. if dgt v m then v else m) w0 ys"
      "range_v t = dsub (max_v t) (min_v t)"
      "get_percentile (qsort compare_double ys) (Finite (1 / 2)) = Some (median t)"
      "get_percentile (qsort compare_double ys) (Finite (1 / 4)) = Some (q1 t)"
      "get_percentile (qsort compare_double ys) (Finite (3 / 4)) = Some (q3 t)"
      "sum_v t = foldl dadd (Finite 0) ys"
      "mean t = ddiv (sum_v t) (double_of_nat (length ys))"
      "variance t = ddiv (sum_sq_dev ys (mean t)) (double_of_nat (length ys))"
    by (rule calculate_stats_some [OF ys])
  have "key (min_v s) = Min (key ` set xs)" "min_v s \<noteq> NaN"
    using min_key [OF nx] by (simp_all add: s(3) xs)
  moreover have "key (min_v t) = Min (key ` set ys)" "min_v t \<noteq> NaN"
    using min_key [OF ny] by (simp_all add: t(3) ys)
  ultimately have mn: "same_value (min_v s) (min_v t)"
    by (intro key_eq_same_value) (simp_all add: st)
  have "key (max_v s) = Max (key ` set xs)" "max_v s \<noteq> NaN"
    using max_key [OF nx] by (simp_all add: s(4) xs)
  moreover have "key (max_v t) = Max (key ` set ys)" "max_v t \<noteq> NaN"
    using max_key [OF ny] by (simp_all add: t(4) ys)
  ultimately have mx: "same_value (max_v s) (max_v t)"
    by (intro key_eq_same_value) (simp_all add: st)
  have "max_v t \<in> set ys" "min_v s \<in> set xs"
    using foldl_pick_mem [of dgt w0 ys] foldl_pick_mem [of dlt v0 xs]
    by (simp_all add: t(4) s(3) xs ys)
  then have "is_double (max_v t)" "is_double (min_v s)"
    using assms(3) cy by (simp_all add: clean_def)
  with mn mx have rg: "same_value (range_v s) (range_v t)"
    unfolding s(5) t(5) by (intro dsub_cong)
  have "map key (qsort compare_double xs) = map key (qsort compare_double ys)"
    using assms(3,1) by (rule qsort_permutation_keys)
  from same_keys_pointwise [OF this] assms(3) cy
  have pw: "length (qsort compare_double xs) = length (qsort compare_double ys)"
    "\<forall>i<length (qsort compare_double xs).
        same_value (qsort compare_double xs ! i) (qsort compare_double ys ! i)"
    by (simp_all add: clean_def)
  have q: "same_value (median s) (median t)" "same_value (q1 s) (q1 t)"
    "same_value (q3 s) (q3 t)"
    using get_percentile_cong [OF pw, of "Finite (1 / 2)"]
      get_percentile_cong [OF pw, of "Finite (1 / 4)"]
      get_percentile_cong [OF pw, of "Finite (3 / 4)"]
    by (simp_all add: s t)
  from s(1,2) t(1,2) len mn mx rg q show ?thesis by simp
qed

lemma sum_v_calculate_stats:
  assumes "vals = v0 # rest" "length vals \<le> 2 ^ 61"
  shows "map_option sum_v (calculate_stats vals) = Some (foldl dadd (Finite 0) vals)"
proof -
  obtain s where "calculate_stats vals = Some s" "count_v s = length vals"
    "min_v s = foldl (\<lambda>m v. if dlt v m then v else m) v0 vals"
    "max_v s = foldl (\<lambda>m v. if dgt v m then v else m) v0 vals"
    "range_v s = dsub (max_v s) (min_v s)"
    "get_percentile (qsort compare_double vals) (Finite (1 / 2)) = Some (median s)"
    "get_percentile (qsort compare_double vals) (Finite (1 / 4)) = Some (q1 s)"
    "get_percentile (qsort compare_double vals) (Finite (3 / 4)) = Some (q3 s)"
    "sum_v s = foldl dadd (Finite 0) vals"
    "mean s = ddiv (sum_v s) (double_of_nat (length vals))"
    "variance s = ddiv (sum_sq_dev vals (mean s)) (double_of_nat (length vals))"
    by (rule calculate_stats_some [OF assms])
  then show ?thesis by simp
qed

lemma clean_ints:
  assumes "\<forall>x\<in>set xs. \<exists>n::int. x = Finite (of_int n) \<and> \<bar>n\<bar> < 2 ^ 53"
  shows "clean xs"
  unfolding clean_def
proof
  fix x assume "x \<in> set xs"
  with assms obtain n :: int where "x = Finite (of_int n)" "\<bar>n\<bar> < 2 ^ 53" by blast
  then show "is_double x \<and> x \<noteq> NaN" by (simp add: is_double_def rnd_int)
qed

theorem permutation_invariant_fields_witness:
  "mset [Finite 3, Finite 1, Finite 2] = mset [Finite 1, Finite 2, Finite 3]
   \<and> [Finite 3, Finite 1, Finite 2] \<noteq> []
   \<and> clean [Finite 3, Finite 1, Finite 2]
   \<and> length [Finite 3, Finite 1, Finite 2] \<le> 2 ^ 61
   \<and> (\<exists>s t. calculate_stats [Finite 3, Finite 1, Finite 2] = Some s
          \<and> calculate_stats [Finite 1, Finite 2, Finite 3] = Some t
          \<and> count_v s = count_v t
          \<and> same_value (min_v s) (min_v t) \<and> same_value (max_v s) (max_v t)
          \<and> same_value (range_v s) (range_v t)
          \<and> same_value (median s) (median t)
          \<and> same_value (q1 s) (q1 t) \<and> same_value (q3 s) (q3 t))"
proof -
  have m: "mset [Finite 3, Finite 1, Finite 2] = mset [Finite 1, Finite 2, Finite 3]"
    by simp
  have n: "[Finite 3, Finite 1, Finite 2] \<noteq> []" by simp
  have "rnd 3 = Finite 3" "rnd 1 = Finite 1" "rnd 2 = Finite 2"
    using rnd_int [of 3] rnd_int [of 1] rnd_int [of 2] by simp_all
  then have c: "clean [Finite 3, Finite 1, Finite 2]"
    by (simp add: clean_def is_double_def)
  have l: "length [Finite 3, Finite 1, Finite 2] \<le> 2 ^ 61" by simp
  from permutation_invariant_fields [OF m n c l] m n c l show ?thesis by blast
qed

text \<open>
  C4, as stated, fails: the sum is added up in the order of the input, and the rounding
  of each addition depends on that order.  The doubles \<open>2^53\<close>, \<open>1\<close>, \<open>-2^53\<close> add up to 0
  in this order and to 1 when the 1 comes last.
\<close>

theorem order_dependent_sum_counterexample:
  "mset [Finite 9007199254740992, Finite 1, Finite (- 9007199254740992)]
     = mset [Finite 9007199254740992, Finite (- 9007199254740992), Finite 1]
   \<and> clean [Finite 9007199254740992, Finite 1, Finite (- 9007199254740992)]
   \<and> map_option sum_v
        (calculate_stats [Finite 9007199254740992, Finite 1, Finite (- 9007199254740992)])
       = Some (Finite 0)
   \<and> map_option sum_v
        (calculate_stats [Finite 9007199254740992, Finite (- 9007199254740992), Finite 1])
       = Some (Finite 1)
   \<and> calculate_stats [Finite 9007199254740992, Finite 1, Finite (- 9007199254740992)]
       \<noteq> calculate_stats [Finite 9007199254740992, Finite (- 9007199254740992), Finite 1]"
proof -
  let ?A = "[Finite 9007199254740992, Finite 1, Finite (- 9007199254740992)]"
  let ?B = "[Finite 9007199254740992, Finite (- 9007199254740992), Finite 1]"
  have m: "mset ?A = mset ?B" by simp
  have r: "rnd 9007199254740992 = Finite 9007199254740992" "rnd 1 = Finite 1"
    "rnd (- 9007199254740992) = Finite (- 9007199254740992)"
    by (simp_all add: fp_eval)
  then have c: "clean ?A" by (simp add: clean_def is_double_def)
  have la: "length ?A \<le> 2 ^ 61" and lb: "length ?B \<le> 2 ^ 61" by simp_all
  have sa: "foldl dadd (Finite 0) ?A = Finite 0" by (simp add: fp_eval)
  have sb: "foldl dadd (Finite 0) ?B = Finite 1" by (simp add: fp_eval)
  have a: "map_option sum_v (calculate_stats ?A) = Some (Finite 0)"
    using sum_v_calculate_stats [OF refl la] by (simp only: sa)
  have b: "map_option sum_v (calculate_stats ?B) = Some (Finite 1)"
    using sum_v_calculate_stats [OF refl lb] by (simp only: sb)
  from a b have "calculate_stats ?A \<noteq> calculate_stats ?B" by auto
  with m c a b show ?thesis by blast
qed

subsection \<open>The variance is not negative\<close>

lemma sum_not_NaN:
  assumes "s \<noteq> NaN" "\<forall>v\<in>set vals. is_finite v"
  shows "foldl dadd s vals \<noteq> NaN"
  using assms
proof (induction vals arbitrary: s)
  case Nil
  then show ?case by simp
next
  case (Cons v vals)
  have "dadd s v \<noteq> NaN"
    using Cons.prems by (cases s; cases v) (simp_all add: is_finite_def)
  then show ?case using Cons by simp
qed

lemma double_of_nat_pos:
  assumes "1 \<le> n" "n \<le> 2 ^ 61"
  shows "\<exists>y. double_of_nat n = Finite y \<and> 0 < y"
proof -
  from double_of_nat_bounded [OF assms(2)] obtain y
    where y: "double_of_nat n = Finite y" "0 \<le> y" by blast
  have "(2::real) powi (- 1074) \<le> 2 powi 0" by (simp only: powi_le_iff)
  also have "\<dots> \<le> real n" using assms(1) by simp
  finally have "0 < rval (real n)" by (rule rval_pos)
  moreover have "real n \<noteq> 0" using assms(1) by simp
  ultimately have "rnd (real n) \<noteq> Finite 0" by (simp add: rnd_alt)
  with y show ?thesis by (auto simp: double_of_nat_def)
qed

lemma ddiv_not_NaN:
  assumes "s \<noteq> NaN" "0 < y"
  shows "ddiv s (Finite y) \<noteq> NaN"
  using assms by (simp add: ddiv_def is_inf_def is_zero_def signed_inf_def signed_zero_def)

lemma dsub_finite_not_NaN:
  assumes "is_finite v" "m \<noteq> NaN"
  shows "dsub v m \<noteq> NaN"
  using assms by (cases v; cases m) (simp_all add: is_finite_def dsub_def)

lemma square_nonneg:
  assumes "d \<noteq> NaN"
  shows "nonneg (dmul d d)"
proof (cases d)
  case (Finite r)
  show ?thesis
  proof (cases "r = 0")
    case True
    then show ?thesis by (simp add: Finite dmul_def is_inf_def is_zero_def signed_zero_def nonneg_def)
  next
    case False
    from rnd_nonneg [of "r * r"] have "nonneg (rnd (r * r))" by (auto simp: nonneg_def)
    then show ?thesis using False by (simp add: Finite dmul_def is_inf_def is_zero_def)
  qed
qed (use assms in \<open>simp_all add: dmul_def is_inf_def is_zero_def signed_zero_def signed_inf_def nonneg_def\<close>)

lemma dadd_nonneg:
  assumes "nonneg a" "nonneg b"
  shows "nonneg (dadd a b)"
proof (cases a)
  case fa: (Finite x)
  show ?thesis
  proof (cases b)
    case (Finite y)
    with fa assms have "0 \<le> x + y" by (simp add: nonneg_def)
    from rnd_nonneg [OF this] show ?thesis by (auto simp: fa Finite nonneg_def)
  qed (use assms fa in \<open>simp_all add: nonneg_def\<close>)
qed (use assms in \<open>cases b; simp_all add: nonneg_def\<close>)+

lemma sum_sq_dev_nonneg:
  assumes "\<forall>v\<in>set vals. is_finite v" "m \<noteq> NaN" "nonneg acc"
  shows "nonneg (foldl dadd acc (map (\<lambda>v. dmul (dsub v m) (dsub v m)) vals))"
  using assms
proof (induction vals arbitrary: acc)
  case Nil
  then show ?case by simp
next
  case (Cons v vals)
  have "dsub v m \<noteq> NaN" using Cons.prems by (intro dsub_finite_not_NaN) simp_all
  then have "nonneg (dmul (dsub v m) (dsub v m))" by (rule square_nonneg)
  with Cons.prems(3) have "nonneg (dadd acc (dmul (dsub v m) (dsub v m)))" by (rule dadd_nonneg)
  then show ?case using Cons by simp
qed

lemma ddiv_nonneg:
  assumes "nonneg a" "0 < y"
  shows "nonneg (ddiv a (Finite y))"
proof (cases a)
  case (Finite x)
  with assms have x: "0 \<le> x" by (simp add: nonneg_def)
  show ?thesis
  proof (cases "x = 0")
    case True
    then show ?thesis using assms(2)
      by (simp add: Finite ddiv_def is_inf_def is_zero_def signed_zero_def nonneg_def)
  next
    case False
    have "0 \<le> x / y" using x assms(2) by simp
    from rnd_nonneg [OF this] have "nonneg (rnd (x / y))" by (auto simp: nonneg_def)
    then show ?thesis using False assms(2) by (simp add: Finite ddiv_def is_inf_def is_zero_def)
  qed
qed (use assms in \<open>simp_all add: nonneg_def ddiv_def is_inf_def is_zero_def signed_inf_def\<close>)

lemma nonneg_dle: "nonneg x \<Longrightarrow> dle (Finite 0) x"
  by (cases x) (simp_all add: nonneg_def dle_def)

lemma variance_nonneg:
  assumes "vals \<noteq> []" "length vals \<le> 2 ^ 61" "\<forall>v\<in>set vals. is_finite v"
  shows "dle (Finite 0)
     (ddiv (sum_sq_dev vals (ddiv (foldl dadd (Finite 0) vals) (double_of_nat (length vals))))
        (double_of_nat (length vals)))"
proof -
  have "1 \<le> length vals" using assms(1) by (cases vals) simp_all
  from double_of_nat_pos [OF this assms(2)] obtain y
    where y: "double_of_nat (length vals) = Finite y" "0 < y" by blast
  have "foldl dadd (Finite 0) vals \<noteq> NaN" using assms(3) by (intro sum_not_NaN) simp_all
  then have m: "ddiv (foldl dadd (Finite 0) vals) (Finite y) \<noteq> NaN"
    using y(2) by (rule ddiv_not_NaN)
  have "nonneg (Finite 0)" by (simp add: nonneg_def)
  with assms(3) m have "nonneg (sum_sq_dev vals (ddiv (foldl dadd (Finite 0) vals) (Finite y)))"
    unfolding sum_sq_dev_def by (intro sum_sq_dev_nonneg)
  then have "nonneg (ddiv (sum_sq_dev vals (ddiv (foldl dadd (Finite 0) vals) (Finite y))) (Finite y))"
    using y(2) by (rule ddiv_nonneg)
  then show ?thesis unfolding y(1) by (rule nonneg_dle)
qed

lemma min_le_max:
  assumes "\<forall>v\<in>set (v0 # rest). v \<noteq> NaN"
  shows "dle (foldl (\<lambda>m v. if dlt v m then v else m) v0 (v0 # rest))
             (foldl (\<lambda>m v. if dgt v m then v else m) v0 (v0 # rest))"
proof -
  have "Min (key ` set (v0 # rest)) \<le> key v0" by (intro Min_le) simp_all
  also have "key v0 \<le> Max (key ` set (v0 # rest))" by (intro Max_ge) simp_all
  finally show ?thesis
    using min_key [OF assms] max_key [OF assms] by (simp only: dle_def) simp
qed

subsection \<open>Interpolation between small integers is exact\<close>

lemma small_intE:
  assumes "small_int x"
  obtains n :: int where "x = Finite (of_int n)" "\<bar>n\<bar> \<le> 2 ^ 50"
proof -
  from assms obtain r where r: "x = Finite r" "r = of_int \<lfloor>r\<rfloor>" "\<bar>r\<bar> \<le> 2 ^ 50"
    by (cases x) (simp_all add: small_int_def)
  have "\<bar>real_of_int \<lfloor>r\<rfloor>\<bar> \<le> 2 ^ 50" using r(2,3) by simp
  then have "real_of_int \<bar>\<lfloor>r\<rfloor>\<bar> \<le> real_of_int (2 ^ 50)" by simp
  then have "\<bar>\<lfloor>r\<rfloor>\<bar> \<le> 2 ^ 50" by (simp only: of_int_le_iff)
  with r(1,2) show thesis by (intro that [of "\<lfloor>r\<rfloor>"]) simp_all
qed

lemma rnd_quarters:
  assumes "x = of_int m / 4" "\<bar>m\<bar> < 2 ^ 53"
  shows "rnd x = Finite x"
proof -
  have "\<bar>x\<bar> \<le> \<bar>real_of_int m\<bar>" by (simp add: assms(1))
  also have "\<dots> < real_of_int (2 ^ 53)" using assms(2) by (simp only: of_int_abs [symmetric] of_int_less_iff)
  also have "\<dots> < overflow_threshold" using pow_less_overflow [of 53] by simp
  finally have "\<bar>x\<bar> < overflow_threshold" .
  moreover have "x = of_int m * 2 powi (- 2)" by (simp add: assms(1) power_int_minus_divide)
  ultimately show ?thesis using assms(2) by (intro rnd_exact [of x m "- 2"]) simp_all
qed

lemma dmul_quarters:
  assumes "x * y = of_int m / 4" "\<bar>m\<bar> < 2 ^ 53" "0 \<le> y"
  shows "dmul (Finite x) (Finite y) = Finite (x * y) \<or>
         (dmul (Finite x) (Finite y) = NegZero \<and> x * y = 0)"
proof (cases "x = 0 \<or> y = 0")
  case True
  then show ?thesis using assms(3)
    by (auto simp: dmul_def is_inf_def is_zero_def signed_zero_def)
next
  case False
  then show ?thesis using rnd_quarters [OF assms(1,2)]
    by (simp add: dmul_def is_inf_def is_zero_def)
qed

lemma dmul_quarters_pos:
  assumes "x * y = of_int m / 4" "\<bar>m\<bar> < 2 ^ 53" "0 < y"
  shows "dmul (Finite x) (Finite y) = Finite (x * y)"
proof (cases "x = 0")
  case True
  then show ?thesis using assms(3)
    by (simp add: dmul_def is_inf_def is_zero_def signed_zero_def)
next
  case False
  then show ?thesis using rnd_quarters [OF assms(1,2)] assms(3)
    by (simp add: dmul_def is_inf_def is_zero_def)
qed

lemma dsub_quarters:
  assumes "x - y = of_int m / 4" "\<bar>m\<bar> < 2 ^ 53"
  shows "dsub (Finite x) (Finite y) = Finite (x - y)"
  using rnd_quarters [OF assms] by (simp add: dsub_def)

lemma interpolate_exact:
  assumes "\<bar>na\<bar> \<le> 2 ^ 50" "\<bar>nb\<bar> \<le> 2 ^ 50" "w = of_int j / 4" "0 \<le> j" "j \<le> 3"
  shows "dadd (dmul (Finite (of_int na)) (dsub (Finite 1) (Finite w)))
              (dmul (Finite (of_int nb)) (Finite w))
         = Finite (of_int na * (1 - w) + of_int nb * w)"
proof -
  have omw: "dsub (Finite 1) (Finite w) = Finite (1 - w)"
    using assms(4,5) by (intro dsub_quarters [of _ _ "4 - j"]) (simp_all add: assms(3))
  have w: "0 \<le> w" "0 < 1 - w" using assms(4,5) by (simp_all add: assms(3))
  have "\<bar>na * (4 - j)\<bar> \<le> 2 ^ 50 * 4"
    unfolding abs_mult using assms(1,4,5) by (intro mult_mono) simp_all
  then have ma: "\<bar>na * (4 - j)\<bar> < 2 ^ 53" by simp
  have "\<bar>nb * j\<bar> \<le> 2 ^ 50 * 4"
    unfolding abs_mult using assms(2,4,5) by (intro mult_mono) simp_all
  then have mb: "\<bar>nb * j\<bar> < 2 ^ 53" by simp
  have pa: "real_of_int na * (1 - w) = of_int (na * (4 - j)) / 4"
    by (simp add: assms(3) algebra_simps)
  have pb: "real_of_int nb * w = of_int (nb * j) / 4"
    by (simp add: assms(3))
  have "\<bar>na * (4 - j) + nb * j\<bar> \<le> \<bar>na\<bar> * (4 - j) + \<bar>nb\<bar> * j"
    using assms(4,5) by (simp add: abs_mult abs_triangle_ineq [THEN order_trans])
  also have "\<dots> \<le> 2 ^ 50 * (4 - j) + 2 ^ 50 * j"
    using assms(1,2,4,5) by (intro add_mono mult_right_mono) simp_all
  also have "\<dots> = 2 ^ 52" by (simp add: algebra_simps)
  finally have ms: "\<bar>na * (4 - j) + nb * j\<bar> < 2 ^ 53" by simp
  have ps: "real_of_int na * (1 - w) + real_of_int nb * w = of_int (na * (4 - j) + nb * j) / 4"
    by (simp add: pa pb add_divide_distrib)
  from dmul_quarters_pos [OF pa ma w(2)] have A: "dmul (Finite (of_int na)) (Finite (1 - w)) =
      Finite (of_int na * (1 - w))" .
  from dmul_quarters [OF pb mb w(1)] have B: "dmul (Finite (of_int nb)) (Finite w) =
      Finite (of_int nb * w) \<or>
      dmul (Finite (of_int nb)) (Finite w) = NegZero \<and> of_int nb * w = 0" .
  show ?thesis
    unfolding omw A using B rnd_quarters [OF ps ms]
    by (elim disjE conjE) simp_all
qed

lemma double_of_nat_exact:
  assumes "n < 2 ^ 53"
  shows "double_of_nat n = Finite (real n)"
proof -
  have "\<bar>int n\<bar> < 2 ^ 53" using assms by simp
  from rnd_int [OF this] show ?thesis by (simp add: double_of_nat_def)
qed

lemma get_percentile_exact:
  assumes "2 \<le> length s" "length s \<le> 2 ^ 50" "\<forall>x\<in>set s. small_int x"
    and "p = of_int k / 4" "1 \<le> k" "k \<le> 3"
  shows "get_percentile s (Finite p) =
           Some (Finite (lerp (map value_of s) (p * real (length s - 1))))"
    and "nat \<lfloor>p * real (length s - 1)\<rfloor> + 1 < length s"
proof -
  define N where "N = length s - 1"
  define t where "t = p * real N"
  define lower where "lower = nat \<lfloor>t\<rfloor>"
  define j where "j = k * int N - 4 * int lower"
  define w where "w = t - real lower"
  have N: "1 \<le> N" "N < 2 ^ 50" "length s = N + 1" using assms(1,2) by (simp_all add: N_def)
  have p: "0 < p" "p < 1" using assms(5,6) by (simp_all add: assms(4))
  have dn: "double_of_nat N = Finite (real N)" using N(2) by (intro double_of_nat_exact) simp
  have tq: "t = of_int (k * int N) / 4" by (simp add: t_def assms(4))
  have "\<bar>k * int N\<bar> \<le> 3 * 2 ^ 50"
    unfolding abs_mult using assms(5,6) N(2) by (intro mult_mono) simp_all
  then have kn: "\<bar>k * int N\<bar> < 2 ^ 53" by simp
  have index: "dmul (Finite p) (double_of_nat N) = Finite t"
    unfolding dn t_def using tq kn N(1) by (intro dmul_quarters_pos) (simp_all add: t_def)
  have t: "0 < t" "t < real N" using p N(1) by (simp_all add: t_def)
  then have fl: "0 \<le> \<lfloor>t\<rfloor>" "\<lfloor>t\<rfloor> < int N" by (simp_all add: floor_less_iff)
  then have lo: "lower + 1 \<le> N" "real lower = of_int \<lfloor>t\<rfloor>"
    by (simp_all add: lower_def nat_less_iff Suc_le_eq)
  show up: "nat \<lfloor>p * real (length s - 1)\<rfloor> + 1 < length s"
    unfolding N_def [symmetric] t_def [symmetric] lower_def [symmetric]
    using lo(1) N(3) by simp
  have "t \<le> 2 ^ 61" using t(2) N(2) by simp
  with t(1) have cast: "size_t_of_double (Finite t) = Some lower"
    unfolding lower_def by (intro size_t_of_double_Finite) simp_all
  have dl: "double_of_nat lower = Finite (real lower)"
    using lo(1) N(2) by (intro double_of_nat_exact) simp
  have wq: "w = of_int j / 4" by (simp add: w_def j_def tq)
  have w01: "0 \<le> w" "w < 1" unfolding w_def lo(2) by linarith+
  then have "0 \<le> real_of_int j" "real_of_int j < 4" by (simp_all add: wq)
  then have j: "0 \<le> j" "j \<le> 3" by simp_all
  then have "\<bar>j\<bar> < 2 ^ 53" by simp
  then have weight: "dsub (Finite t) (Finite (real lower)) = Finite w"
    unfolding w_def using wq by (intro dsub_quarters) (simp_all add: w_def)
  have "s ! lower \<in> set s" "s ! (lower + 1) \<in> set s"
    using lo(1) N(3) by simp_all
  then have "small_int (s ! lower)" "small_int (s ! (lower + 1))" using assms(3) by simp_all
  then obtain na nb :: int where
    ab: "s ! lower = Finite (of_int na)" "\<bar>na\<bar> \<le> 2 ^ 50"
      "s ! (lower + 1) = Finite (of_int nb)" "\<bar>nb\<bar> \<le> 2 ^ 50"
    by (elim small_intE) blast
  have "interpolate s lower (Finite w) = Finite (of_int na * (1 - w) + of_int nb * w)"
    unfolding interpolate_def ab(1,3) using ab(2,4) wq j by (rule interpolate_exact)
  also have "of_int na * (1 - w) + of_int nb * w = lerp (map value_of s) t"
  proof -
    have "lerp (map value_of s) t =
        value_of (s ! lower) * (1 - w) + value_of (s ! (lower + 1)) * w"
      using lo(1) N(3) by (simp add: lerp_def lower_def [symmetric] lo(2) [symmetric] w_def)
    then show ?thesis by (simp only: ab value_of.simps)
  qed
  finally have "interpolate s lower (Finite w) = Finite (lerp (map value_of s) t)" .
  then have pk: "pick s (Finite t) = Some (Finite (lerp (map value_of s) t))"
    using lo(1) N(3) by (simp add: pick_def cast dl weight)
  have "get_percentile s (Finite p) = pick s (dmul (Finite p) (double_of_nat N))"
    unfolding N_def using assms(1) by (rule get_percentile_large)
  also have "\<dots> = pick s (Finite t)" by (simp only: index)
  also note pk
  finally show "get_percentile s (Finite p) =
           Some (Finite (lerp (map value_of s) (p * real (length s - 1))))"
    unfolding t_def N_def .
qed

subsection \<open>Interpolation in a sorted sequence\<close>

lemma lerp_between:
  assumes "sorted rs" "0 \<le> t" "nat \<lfloor>t\<rfloor> + 1 < length rs"
  shows "rs ! nat \<lfloor>t\<rfloor> \<le> lerp rs t" and "lerp rs t \<le> rs ! (nat \<lfloor>t\<rfloor> + 1)"
proof -
  define a b w where "a = rs ! nat \<lfloor>t\<rfloor>" and "b = rs ! (nat \<lfloor>t\<rfloor> + 1)" and "w = t - of_int \<lfloor>t\<rfloor>"
  have ab: "a \<le> b" unfolding a_def b_def using assms(1,3) by (intro sorted_nth_mono) simp_all
  have w: "0 \<le> w" "w < 1" unfolding w_def by linarith+
  have l: "lerp rs t = a * (1 - w) + b * w" by (simp add: lerp_def a_def b_def w_def)
  have "0 \<le> w * (b - a)" "0 \<le> (1 - w) * (b - a)" using ab w by simp_all
  then have "a \<le> a * (1 - w) + b * w" "a * (1 - w) + b * w \<le> b"
    by (simp_all add: algebra_simps)
  then show "rs ! nat \<lfloor>t\<rfloor> \<le> lerp rs t" and "lerp rs t \<le> rs ! (nat \<lfloor>t\<rfloor> + 1)"
    unfolding l by (simp_all add: a_def b_def)
qed

lemma lerp_mono:
  assumes "sorted rs" "0 \<le> t" "t \<le> t'" "nat \<lfloor>t'\<rfloor> + 1 < length rs"
  shows "lerp rs t \<le> lerp rs t'"
proof -
  have ff: "\<lfloor>t\<rfloor> \<le> \<lfloor>t'\<rfloor>" using assms(3) by (rule floor_mono)
  then have up: "nat \<lfloor>t\<rfloor> + 1 < length rs" using assms(4) by linarith
  have t': "0 \<le> t'" using assms(2,3) by simp
  show ?thesis
  proof (cases "\<lfloor>t\<rfloor> = \<lfloor>t'\<rfloor>")
    case True
    define a b where "a = rs ! nat \<lfloor>t\<rfloor>" and "b = rs ! (nat \<lfloor>t\<rfloor> + 1)"
    have ab: "a \<le> b" unfolding a_def b_def using assms(1) up by (intro sorted_nth_mono) simp_all
    have "(t - of_int \<lfloor>t\<rfloor>) * (b - a) \<le> (t' - of_int \<lfloor>t\<rfloor>) * (b - a)"
      using assms(3) ab by (intro mult_right_mono) simp_all
    moreover have "lerp rs t = a + (t - of_int \<lfloor>t\<rfloor>) * (b - a)"
      "lerp rs t' = a + (t' - of_int \<lfloor>t\<rfloor>) * (b - a)"
      by (simp_all add: lerp_def True [symmetric] a_def b_def algebra_simps)
    ultimately show ?thesis by simp
  next
    case False
    with ff have "\<lfloor>t\<rfloor> < \<lfloor>t'\<rfloor>" by simp
    moreover have "0 \<le> \<lfloor>t\<rfloor>" using assms(2) by simp
    ultimately have lt: "nat \<lfloor>t\<rfloor> + 1 \<le> nat \<lfloor>t'\<rfloor>" by linarith
    have "lerp rs t \<le> rs ! (nat \<lfloor>t\<rfloor> + 1)" using assms(1,2) up by (rule lerp_between)
    also have "\<dots> \<le> rs ! nat \<lfloor>t'\<rfloor>" using assms(1,4) lt by (intro sorted_nth_mono) simp_all
    also have "\<dots> \<le> lerp rs t'" using assms(1) t' assms(4) by (rule lerp_between)
    finally show ?thesis .
  qed
qed

lemma small_int_facts:
  assumes "small_int x"
  shows "is_double x" "x \<noteq> NaN" "key x = (0, value_of x)" "x = Finite (value_of x)"
proof -
  from assms obtain n :: int where n: "x = Finite (of_int n)" "\<bar>n\<bar> \<le> 2 ^ 50"
    by (rule small_intE)
  then have "\<bar>n\<bar> < 2 ^ 53" by simp
  from rnd_int [OF this] show "is_double x" by (simp add: n(1) is_double_def)
  show "x \<noteq> NaN" "key x = (0, value_of x)" "x = Finite (value_of x)" by (simp_all add: n(1))
qed

lemma sorted_values:
  assumes "\<forall>x\<in>set s. small_int x" "sorted (map key s)"
  shows "sorted (map value_of s)"
proof -
  have "map key s = map (\<lambda>r. (0::int, r)) (map value_of s)"
    using assms(1) by (simp add: small_int_facts(3))
  with assms(2) have "sorted (map (\<lambda>r. (0::int, r)) (map value_of s))" by simp
  then show ?thesis by (simp add: sorted_map sorted_wrt_iff_nth_less)
qed

subsection \<open>The order of the summary\<close>

lemma is_finite_not_NaN: "is_finite v \<Longrightarrow> v \<noteq> NaN"
  by (cases v) (simp_all add: is_finite_def)

lemma small_int_finite: "small_int v \<Longrightarrow> is_finite v"
  by (cases v) (simp_all add: small_int_def is_finite_def)

lemma dle_Finite [simp]: "dle (Finite x) (Finite y) \<longleftrightarrow> x \<le> y"
  by (simp add: dle_def less_eq_prod_def)

lemma dle_trans: "dle x y \<Longrightarrow> dle y z \<Longrightarrow> dle x z"
  unfolding dle_def using order_trans by blast

lemma dle_refl: "v \<noteq> NaN \<Longrightarrow> dle v v"
  by (simp add: dle_def)

text \<open>The quartiles of small integers are in order, between the least and the greatest.\<close>

lemma quartile_chain:
  assumes "vals = v0 # rest" "\<forall>v\<in>set vals. small_int v" "length vals \<le> 2 ^ 50"
    and "get_percentile (qsort compare_double vals) (Finite (1 / 2)) = Some md"
    and "get_percentile (qsort compare_double vals) (Finite (1 / 4)) = Some p25"
    and "get_percentile (qsort compare_double vals) (Finite (3 / 4)) = Some p75"
  shows "dle (foldl (\<lambda>m v. if dlt v m then v else m) v0 vals) p25 \<and> dle p25 md \<and> dle md p75
       \<and> dle p75 (foldl (\<lambda>m v. if dgt v m then v else m) v0 vals)"
proof -
  define srt where "srt = qsort compare_double vals"
  define mn where "mn = foldl (\<lambda>m v. if dlt v m then v else m) v0 vals"
  define mx where "mx = foldl (\<lambda>m v. if dgt v m then v else m) v0 vals"
  define rs where "rs = map value_of srt"
  have nn: "\<forall>v\<in>set (v0 # rest). v \<noteq> NaN"
    using assms(2) by (auto simp: assms(1) small_int_facts(2))
  have mnk: "key mn = Min (key ` set vals)" "mn \<noteq> NaN"
    unfolding mn_def assms(1) using min_key [OF nn] by simp_all
  have mxk: "key mx = Max (key ` set vals)" "mx \<noteq> NaN"
    unfolding mx_def assms(1) using max_key [OF nn] by simp_all
  have ss: "\<forall>x\<in>set srt. small_int x" "length srt = length vals"
    using assms(2) by (simp_all add: srt_def)
  have low: "dle mn x" and high: "dle x mx" if "x \<in> set vals" for x
  proof -
    have "Min (key ` set vals) \<le> key x" "key x \<le> Max (key ` set vals)"
      using that by (simp_all)
    moreover have "x \<noteq> NaN" using that assms(2) by (simp add: small_int_facts(2))
    ultimately show "dle mn x" "dle x mx" using mnk mxk by (simp_all add: dle_def)
  qed
  consider "length vals = 1" | "2 \<le> length vals" using assms(1) by (cases rest) simp_all
  then show ?thesis
  proof cases
    case 1
    then have "rest = []" using assms(1) by simp
    then have v: "vals = [v0]" using assms(1) by simp
    have "md = v0" "p25 = v0" "p75 = v0"
      using assms(4-6) by (simp_all add: v qsort_def get_percentile_def)
    moreover have "mn = v0" "mx = v0" by (simp_all add: mn_def mx_def v)
    ultimately show ?thesis
      unfolding mn_def [symmetric] mx_def [symmetric] using nn by (simp add: dle_refl)
  next
    case 2
    then have l2: "2 \<le> length srt" "length srt \<le> 2 ^ 50" using assms(3) ss(2) by simp_all
    define n1 where "n1 = real (length srt - 1)"
    have n1: "0 \<le> n1" by (simp add: n1_def)
    have q: "get_percentile srt (Finite (1 / 4)) = Some (Finite (lerp rs (1 / 4 * n1)))"
      "get_percentile srt (Finite (1 / 2)) = Some (Finite (lerp rs (1 / 2 * n1)))"
      "get_percentile srt (Finite (3 / 4)) = Some (Finite (lerp rs (3 / 4 * n1)))"
      and u: "nat \<lfloor>1 / 4 * n1\<rfloor> + 1 < length srt" "nat \<lfloor>1 / 2 * n1\<rfloor> + 1 < length srt"
      "nat \<lfloor>3 / 4 * n1\<rfloor> + 1 < length srt"
      unfolding rs_def n1_def
      using get_percentile_exact [OF l2 ss(1), of "1 / 4" 1]
        get_percentile_exact [OF l2 ss(1), of "1 / 2" 2]
        get_percentile_exact [OF l2 ss(1), of "3 / 4" 3]
      by simp_all
    have e: "p25 = Finite (lerp rs (1 / 4 * n1))" "md = Finite (lerp rs (1 / 2 * n1))"
      "p75 = Finite (lerp rs (3 / 4 * n1))"
      using q assms(4-6) by (simp_all add: srt_def)
    have cl: "clean vals" using assms(2) by (simp add: clean_def small_int_facts)
    have srs: "sorted rs" unfolding rs_def
      using ss(1) sorted_qsort [OF cl] by (intro sorted_values) (simp_all add: srt_def)
    have lr: "length rs = length srt" by (simp add: rs_def)
    have a: "lerp rs (1 / 4 * n1) \<le> lerp rs (1 / 2 * n1)"
      using srs n1 u(2) by (intro lerp_mono) (simp_all add: lr)
    have b: "lerp rs (1 / 2 * n1) \<le> lerp rs (3 / 4 * n1)"
      using srs n1 u(3) by (intro lerp_mono) (simp_all add: lr)
    have el: "srt ! i \<in> set vals" "srt ! i = Finite (rs ! i)" if "i < length srt" for i
    proof -
      have "srt ! i \<in> set srt" using that by simp
      then show "srt ! i \<in> set vals" by (simp add: srt_def)
      then have "small_int (srt ! i)" using assms(2) by simp
      from small_int_facts(4) [OF this] show "srt ! i = Finite (rs ! i)"
        using that by (simp add: rs_def)
    qed
    have "dle mn (srt ! nat \<lfloor>1 / 4 * n1\<rfloor>)" using u(1) by (intro low el) simp
    then have "dle mn (Finite (rs ! nat \<lfloor>1 / 4 * n1\<rfloor>))" using el(2) u(1) by simp
    moreover have "rs ! nat \<lfloor>1 / 4 * n1\<rfloor> \<le> lerp rs (1 / 4 * n1)"
      using srs n1 u(1) by (intro lerp_between) (simp_all add: lr)
    then have "dle (Finite (rs ! nat \<lfloor>1 / 4 * n1\<rfloor>)) (Finite (lerp rs (1 / 4 * n1)))"
      by (simp add: dle_def)
    ultimately have c: "dle mn (Finite (lerp rs (1 / 4 * n1)))"
      by (rule dle_trans)
    have "dle (srt ! (nat \<lfloor>3 / 4 * n1\<rfloor> + 1)) mx" using u(3) by (intro high el)
    then have dl: "dle (Finite (rs ! (nat \<lfloor>3 / 4 * n1\<rfloor> + 1))) mx" using el(2) u(3) by simp
    have "lerp rs (3 / 4 * n1) \<le> rs ! (nat \<lfloor>3 / 4 * n1\<rfloor> + 1)"
      using srs n1 u(3) by (intro lerp_between) (simp_all add: lr)
    then have "key (Finite (lerp rs (3 / 4 * n1))) \<le> key (Finite (rs ! (nat \<lfloor>3 / 4 * n1\<rfloor> + 1)))"
      by (simp add: less_eq_prod_def)
    then have "dle (Finite (lerp rs (3 / 4 * n1))) (Finite (rs ! (nat \<lfloor>3 / 4 * n1\<rfloor> + 1)))"
      by (simp add: dle_def)
    from this dl have d: "dle (Finite (lerp rs (3 / 4 * n1))) mx"
      by (rule dle_trans)
    from a b c d show ?thesis
      unfolding mn_def [symmetric] mx_def [symmetric] e by simp
  qed
qed




end
